theory Spec2Isabelle
  imports Main "HOL-Library.Word" "HOL-Library.Multiset"
begin

section \<open>Strings\<close>

text \<open>
  JavaScript and .NET strings are sequences of UTF-16 code units; \<open>length\<close>,
  \<open>Substring\<close>, \<open>includes\<close>, \<open>split\<close> and \<open>trim\<close> all work on code units.
  A string is therefore a list of 16-bit words; \<open>utf16\<close> embeds an ASCII literal.
\<close>

type_synonym code_unit = "16 word"
type_synonym jstring = "code_unit list"

definition utf16 :: "string \<Rightarrow> jstring" where
  "utf16 s = map of_char s"

text \<open>
  \<open>String.prototype.trim\<close> removes leading and trailing WhiteSpace and LineTerminator
  code points (ECMA-262): TAB, LF, VT, FF, CR, SP, NBSP, the Zs category, LS, PS and
  the byte order mark.
\<close>

definition is_ws :: "code_unit \<Rightarrow> bool" where
  "is_ws c = (c \<in> set [0x09, 0x0A, 0x0B, 0x0C, 0x0D, 0x20, 0xA0, 0x1680,
      0x2000, 0x2001, 0x2002, 0x2003, 0x2004, 0x2005, 0x2006, 0x2007, 0x2008,
      0x2009, 0x200A, 0x2028, 0x2029, 0x202F, 0x205F, 0x3000, 0xFEFF])"

definition trim :: "jstring \<Rightarrow> jstring" where
  "trim s = rev (dropWhile is_ws (rev (dropWhile is_ws s)))"

text \<open>\<open>s.indexOf(sep)\<close>: the first position where \<open>sep\<close> occurs, if any.\<close>

fun indexOf :: "jstring \<Rightarrow> jstring \<Rightarrow> nat option" where
  "indexOf sep [] = (if sep = [] then Some 0 else None)"
| "indexOf sep (c # cs) =
     (if take (length sep) (c # cs) = sep then Some 0
      else map_option Suc (indexOf sep cs))"

definition str_includes :: "jstring \<Rightarrow> jstring \<Rightarrow> bool" where
  "str_includes s sep = (indexOf sep s \<noteq> None)"

text \<open>
  \<open>s.split(sep)\<close> cuts at every occurrence of the separator, left to right; an empty
  separator cuts between all code units.
\<close>

function split :: "jstring \<Rightarrow> jstring \<Rightarrow> jstring list" where
  "split s sep =
     (if sep = [] then map (\<lambda>c. [c]) s
      else (case indexOf sep s of
              None \<Rightarrow> [s]
            | Some i \<Rightarrow> take i s # split (drop (i + length sep) s) sep))"
  by pat_completeness auto

termination split
proof (relation "measure (\<lambda>(s, sep). length s)")
  show "wf (measure (\<lambda>(s, sep). length s))" by simp
next
  fix s sep :: jstring and i :: nat
  assume "sep \<noteq> []" and "indexOf sep s = Some i"
  then have "s \<noteq> []" and "0 < length sep"
    by (cases s; simp)+
  then show "((drop (i + length sep) s, sep), (s, sep)) \<in> measure (\<lambda>(s, sep). length s)"
    by simp
qed

declare split.simps [simp del]

section \<open>The parser script: truncation (AstParse.ps1)\<close>

datatype ps_error = ArgumentOutOfRange

text \<open>
  \<open>[AstProperty]::TrimString($String, $MaxChars)\<close>. A \<open>[string]\<close> parameter holds
  the empty string where \<open>$null\<close> was passed, so \<open>IsNullOrEmpty\<close> is the test for
  the empty list. \<open>Substring(0, n)\<close> raises for a negative \<open>n\<close>.
\<close>

definition TrimString2 :: "jstring \<Rightarrow> int \<Rightarrow> ps_error + jstring" where
  "TrimString2 String MaxChars =
     (if String = [] then Inr []
      else if int (length String) \<le> MaxChars then Inr String
      else if MaxChars < 0 then Inl ArgumentOutOfRange
      else Inr (take (nat MaxChars) String @ utf16 ''...''))"

definition TrimString :: "jstring \<Rightarrow> ps_error + jstring" where
  "TrimString String = TrimString2 String 200"

record AstProperty =
  Name :: jstring
  Value :: jstring
  TypeName :: jstring

text \<open>The constructor \<open>AstProperty(Name, Value, TypeName)\<close>.\<close>

definition AstProperty_new :: "jstring \<Rightarrow> jstring \<Rightarrow> jstring \<Rightarrow> ps_error + AstProperty" where
  "AstProperty_new name val tyname =
     (case TrimString val of
        Inl e \<Rightarrow> Inl e
      | Inr v \<Rightarrow> Inr \<lparr>Name = name, Value = v, TypeName = tyname\<rparr>)"

text \<open>The \<open>text\<close> entry of \<open>$nodeData\<close>, from the node's \<open>ToString()\<close>.\<close>

definition nodeData_text :: "jstring \<Rightarrow> ps_error + jstring" where
  "nodeData_text rendering = TrimString2 rendering 100"

text \<open>
  The \<open>catch\<close> block of the script: it writes the error object as one line of JSON
  and exits with code 1. \<open>ConvertTo-Json\<close> and the line terminator of the host are
  parameters. The result is what the script has written to its standard output, and
  its exit code.
\<close>

record error_object =
  err_error :: bool
  err_message :: jstring
  err_type :: jstring

definition catch_block :: "(error_object \<Rightarrow> jstring) \<Rightarrow> jstring \<Rightarrow> jstring \<Rightarrow> jstring \<times> int option" where
  "catch_block ConvertTo_Json newline exception_message =
     (ConvertTo_Json \<lparr>err_error = True, err_message = exception_message,
                      err_type = utf16 ''ParseError''\<rparr> @ newline,
      Some 1)"

section \<open>Nodes (extension.ts)\<close>

record FlatAstNode =
  flat_id :: jstring
  flat_hashCode :: int
  flat_parentHashCode :: "int option"
  flat_type :: jstring
  flat_text :: jstring
  flat_extentString :: jstring
  StartLineNumber :: int
  StartColumnNumber :: int
  EndLineNumber :: int
  EndColumnNumber :: int
  flat_textLength :: int
  flat_properties :: "AstProperty list"

text \<open>
  A \<open>PowerShellAstNode\<close> object. Objects are shared and mutated, so \<open>children\<close> holds
  references: the reference to a node object is the hash code under which the node
  map holds it.
\<close>

type_synonym ref = int

record PowerShellAstNode =
  node_type :: jstring
  node_text :: jstring
  extentString :: jstring
  startLine :: int
  startColumn :: int
  endLine :: int
  endColumn :: int
  textLength :: int
  children :: "ref list"
  properties :: "AstProperty list"
  node_id :: jstring
  hashCode :: int
  parentHashCode :: "int option"

section \<open>Node locator (revealNodeForSelection)\<close>

text \<open>
  The body of the loop over \<open>astState.nodeMap.values()\<close>, with \<open>line\<close> and \<open>column\<close>
  already 1-based, and the loop itself.
\<close>

definition locate_step :: "int \<Rightarrow> int \<Rightarrow> PowerShellAstNode \<Rightarrow> PowerShellAstNode option
    \<Rightarrow> PowerShellAstNode option" where
  "locate_step line column node foundNode =
     (if startLine node < line \<or> (startLine node = line \<and> startColumn node \<le> column) then
        if endLine node > line \<or> (endLine node = line \<and> endColumn node \<ge> column) then
          (case foundNode of
             None \<Rightarrow> Some node
           | Some f \<Rightarrow> if textLength node \<le> textLength f then Some node else foundNode)
        else foundNode
      else foundNode)"

definition locate :: "PowerShellAstNode list \<Rightarrow> int \<Rightarrow> int \<Rightarrow> PowerShellAstNode option" where
  "locate nodes line column = fold (locate_step line column) nodes None"

section \<open>Tree builder (PowerShellAstAnalyzer.buildTreeFromFlatData)\<close>

text \<open>
  A JavaScript \<open>Map\<close> keeps its entries in the order in which their keys were first
  inserted; \<open>set\<close> on a key that is present replaces the value in place.
\<close>

type_synonym nodeMap = "(int \<times> PowerShellAstNode) list"

fun map_set :: "int \<Rightarrow> PowerShellAstNode \<Rightarrow> nodeMap \<Rightarrow> nodeMap" where
  "map_set k v [] = [(k, v)]"
| "map_set k v ((k', v') # m) =
     (if k' = k then (k, v) # m else (k', v') # map_set k v m)"

definition map_get :: "nodeMap \<Rightarrow> int \<Rightarrow> PowerShellAstNode option" where
  "map_get m k = map_of m k"

text \<open>
  First pass: one object per flat node. \<open>flatNode.properties || []\<close> is
  \<open>flatNode.properties\<close>, since every array is truthy.
\<close>

definition toTreeNode :: "FlatAstNode \<Rightarrow> PowerShellAstNode" where
  "toTreeNode flatNode =
     \<lparr>node_type = flat_type flatNode,
      node_text = flat_text flatNode,
      extentString = flat_extentString flatNode,
      startLine = StartLineNumber flatNode,
      startColumn = StartColumnNumber flatNode,
      endLine = EndLineNumber flatNode,
      endColumn = EndColumnNumber flatNode,
      textLength = flat_textLength flatNode,
      children = [],
      properties = flat_properties flatNode,
      node_id = flat_id flatNode,
      hashCode = flat_hashCode flatNode,
      parentHashCode = flat_parentHashCode flatNode\<rparr>"

definition firstPass :: "FlatAstNode list \<Rightarrow> nodeMap" where
  "firstPass flatData =
     fold (\<lambda>flatNode nodeMap. map_set (flat_hashCode flatNode) (toTreeNode flatNode) nodeMap)
       flatData []"

text \<open>
  \<open>parent.children.push(node)\<close> mutates the object that the map holds under the
  parent's key; the map's keys and their order are untouched. (\<open>children\<close> was set to
  \<open>[]\<close> by the first pass, so the \<open>!parent.children\<close> branch never runs.)
\<close>

definition push_child :: "ref \<Rightarrow> ref \<Rightarrow> nodeMap \<Rightarrow> nodeMap" where
  "push_child p c m =
     map (\<lambda>(k, obj). if k = p then (k, obj\<lparr>children := children obj @ [c]\<rparr>) else (k, obj)) m"

text \<open>
  The body of the second loop, for the entry under key \<open>h\<close>; the state is the map
  (the store of all node objects) and \<open>rootNodes\<close>.
\<close>

definition link_step :: "ref \<Rightarrow> nodeMap \<times> ref list \<Rightarrow> nodeMap \<times> ref list" where
  "link_step h st =
     (case st of (nodeMap, rootNodes) \<Rightarrow>
        (case map_get nodeMap h of
           None \<Rightarrow> (nodeMap, rootNodes)
         | Some node \<Rightarrow>
             (case parentHashCode node of
                None \<Rightarrow> (nodeMap, rootNodes @ [h])
              | Some p \<Rightarrow>
                  (case map_get nodeMap p of
                     None \<Rightarrow> (nodeMap, rootNodes)
                   | Some parent \<Rightarrow> (push_child p h nodeMap, rootNodes)))))"

definition secondPass :: "nodeMap \<Rightarrow> nodeMap \<times> ref list" where
  "secondPass nodeMap = fold link_step (map fst nodeMap) (nodeMap, [])"

text \<open>
  The result is \<open>rootNodes\<close>, a list of references, together with the store that the
  references point into.
\<close>

definition buildTreeFromFlatData :: "FlatAstNode list \<Rightarrow> ref list \<times> nodeMap" where
  "buildTreeFromFlatData flatData =
     (if length flatData = 0 then ([], [])
      else (case secondPass (firstPass flatData) of (nodeMap, rootNodes) \<Rightarrow> (rootNodes, nodeMap)))"

subsection \<open>Reading the object graph as a forest\<close>

datatype tree = Tree PowerShellAstNode "tree list"

text \<open>
  The tree below a reference, read off the store. The fuel bounds the depth of the
  reading; \<open>forest_of\<close> gives one more than the number of objects, which is shown
  below to be enough for every result of the builder.
\<close>

fun reify :: "nat \<Rightarrow> nodeMap \<Rightarrow> ref \<Rightarrow> tree option" where
  "reify 0 m r = None"
| "reify (Suc fuel) m r =
     (case map_get m r of
        None \<Rightarrow> None
      | Some obj \<Rightarrow>
          (case those (map (reify fuel m) (children obj)) of
             None \<Rightarrow> None
           | Some ts \<Rightarrow> Some (Tree obj ts)))"

definition forest_of :: "ref list \<times> nodeMap \<Rightarrow> tree list option" where
  "forest_of res = (case res of (rootNodes, m) \<Rightarrow> those (map (reify (Suc (length m)) m) rootNodes))"

fun root :: "tree \<Rightarrow> PowerShellAstNode" where
  "root (Tree obj ts) = obj"

fun preorder :: "tree \<Rightarrow> PowerShellAstNode list" where
  "preorder (Tree obj ts) = obj # concat (map preorder ts)"

definition flatten :: "tree list \<Rightarrow> PowerShellAstNode list" where
  "flatten forest = concat (map preorder forest)"

text \<open>The flat node an object was made from.\<close>

definition toFlat :: "PowerShellAstNode \<Rightarrow> FlatAstNode" where
  "toFlat node =
     \<lparr>flat_id = node_id node,
      flat_hashCode = hashCode node,
      flat_parentHashCode = parentHashCode node,
      flat_type = node_type node,
      flat_text = node_text node,
      flat_extentString = extentString node,
      StartLineNumber = startLine node,
      StartColumnNumber = startColumn node,
      EndLineNumber = endLine node,
      EndColumnNumber = endColumn node,
      flat_textLength = textLength node,
      flat_properties = properties node\<rparr>"

subsection \<open>Conditions on the input list\<close>

definition unique_hashes :: "FlatAstNode list \<Rightarrow> bool" where
  "unique_hashes flatData = distinct (map flat_hashCode flatData)"

definition parents_resolve :: "FlatAstNode list \<Rightarrow> bool" where
  "parents_resolve flatData =
     (\<forall>n \<in> set flatData. case flat_parentHashCode n of
        None \<Rightarrow> True
      | Some p \<Rightarrow> p \<in> set (map flat_hashCode flatData))"

definition is_orphan :: "FlatAstNode list \<Rightarrow> FlatAstNode \<Rightarrow> bool" where
  "is_orphan flatData n =
     (case flat_parentHashCode n of
        None \<Rightarrow> False
      | Some p \<Rightarrow> p \<notin> set (map flat_hashCode flatData))"

text \<open>
  Following parent references from the node with hash \<open>h\<close> arrives, in fewer than
  \<open>fuel\<close> steps, at a node without parent.
\<close>

fun reaches_root :: "FlatAstNode list \<Rightarrow> nat \<Rightarrow> int \<Rightarrow> bool" where
  "reaches_root flatData 0 h = False"
| "reaches_root flatData (Suc fuel) h =
     (case find (\<lambda>n. flat_hashCode n = h) flatData of
        None \<Rightarrow> False
      | Some n \<Rightarrow>
          (case flat_parentHashCode n of
             None \<Rightarrow> True
           | Some p \<Rightarrow> reaches_root flatData fuel p))"

definition acyclic_parents :: "FlatAstNode list \<Rightarrow> bool" where
  "acyclic_parents flatData =
     (\<forall>n \<in> set flatData. reaches_root flatData (length flatData) (flat_hashCode n))"

text \<open>Flat nodes for examples: with a given extent and length, or a fixed one.\<close>

definition spanNode :: "string \<Rightarrow> int \<Rightarrow> int option \<Rightarrow> int \<times> int \<Rightarrow> int \<times> int \<Rightarrow> int \<Rightarrow> FlatAstNode" where
  "spanNode i h p start end len =
     \<lparr>flat_id = utf16 i, flat_hashCode = h, flat_parentHashCode = p,
      flat_type = utf16 ''CommandAst'', flat_text = utf16 ''x'',
      flat_extentString = utf16 ''Ln, Col -> Ln, Col'',
      StartLineNumber = fst start, StartColumnNumber = snd start,
      EndLineNumber = fst end, EndColumnNumber = snd end,
      flat_textLength = len, flat_properties = []\<rparr>"

definition flatNode :: "string \<Rightarrow> int \<Rightarrow> int option \<Rightarrow> FlatAstNode" where
  "flatNode i h p = spanNode i h p (1, 1) (1, 2) 1"

subsection \<open>Auxiliary notions for the proofs about the tree builder\<close>

text \<open>
  The parent hash of the object under a key; the state of the second loop after the
  keys \<open>done\<close>; the keys whose parent is \<open>k\<close>, and those without parent; a store
  whose child lists are exactly these; the keys below a key in pre-order, down to a
  depth; the keys a number of generations below some keys; and the depth of a key.
\<close>

definition par :: "nodeMap \<Rightarrow> ref \<Rightarrow> int option" where
  "par m c = (case map_of m c of None \<Rightarrow> None | Some obj \<Rightarrow> parentHashCode obj)"

definition link_spec :: "nodeMap \<Rightarrow> ref list \<Rightarrow> nodeMap \<times> ref list" where
  "link_spec m0 done =
     (map (\<lambda>(k, obj). (k, obj\<lparr>children := children obj @ filter (\<lambda>c. par m0 c = Some k) done\<rparr>)) m0,
      filter (\<lambda>c. map_of m0 c \<noteq> None \<and> par m0 c = None) done)"

definition kids :: "nodeMap \<Rightarrow> ref \<Rightarrow> ref list" where
  "kids m k = filter (\<lambda>c. par m c = Some k) (map fst m)"

definition roots_of :: "nodeMap \<Rightarrow> ref list" where
  "roots_of m = filter (\<lambda>c. par m c = None) (map fst m)"

definition well_linked :: "nodeMap \<Rightarrow> bool" where
  "well_linked m = (distinct (map fst m) \<and> (\<forall>e \<in> set m. children (snd e) = kids m (fst e)))"

fun flatK :: "nodeMap \<Rightarrow> nat \<Rightarrow> ref \<Rightarrow> ref list" where
  "flatK m 0 k = []"
| "flatK m (Suc f) k = k # concat (map (flatK m f) (kids m k))"

fun gen :: "nodeMap \<Rightarrow> nat \<Rightarrow> ref list \<Rightarrow> ref list" where
  "gen m 0 ks = ks"
| "gen m (Suc j) ks = concat (map (kids m) (gen m j ks))"

fun depth_is :: "nodeMap \<Rightarrow> nat \<Rightarrow> ref \<Rightarrow> bool" where
  "depth_is m 0 k = (case map_of m k of None \<Rightarrow> False | Some obj \<Rightarrow> parentHashCode obj = None)"
| "depth_is m (Suc d) k =
     (case map_of m k of
        None \<Rightarrow> False
      | Some obj \<Rightarrow> (case parentHashCode obj of None \<Rightarrow> False | Some p \<Rightarrow> depth_is m d p))"

section \<open>Session runner (PowerShellRunner)\<close>

definition SENTINEL :: jstring where
  "SENTINEL = utf16 ''__END_OF_COMMAND__''"

text \<open>
  \<open>this.process\<close> is \<open>null\<close> or a child process handle. A handle without pid is
  the result of a spawn that failed: \<open>startProcess\<close> stores it before it throws, and
  attaches no listeners to it.
\<close>

datatype proc_handle = Live | NoPid

text \<open>The errors a future can be rejected with.\<close>

datatype js_error =
    FailedToStart
  | SpawnError jstring
  | ProcessError jstring
  | ExitedUnexpectedly "int option"
  | StderrError jstring
  | RunnerDisposed
  | WriteError jstring

text \<open>
  A pending callback is the \<open>{resolve, reject}\<close> pair of one \<open>invoke\<close> call; it is
  identified by a number that the caller supplies. What a handler does to the outside
  is listed as effects, in order. (Lines written to the output channel are left out.)
\<close>

type_synonym handler = nat

datatype effect =
    Spawned
  | Killed
  | Wrote jstring
  | Resolved handler jstring
  | Rejected handler js_error

record PowerShellRunner =
  process :: "proc_handle option"
  isDisposed :: bool
  pendingCallbacks :: "handler list"
  currentData :: jstring
  currentError :: jstring

text \<open>What the operating system does with a spawn and with a write to stdin.\<close>

datatype spawn_outcome = SpawnOk | SpawnNoPid | SpawnThrows jstring
datatype write_outcome = WriteOk | WriteThrows jstring

text \<open>\<open>startProcess\<close>: the new state, the effects, and the error thrown, if any.\<close>

fun startProcess :: "PowerShellRunner \<Rightarrow> spawn_outcome
    \<Rightarrow> PowerShellRunner \<times> effect list \<times> js_error option" where
  "startProcess r SpawnOk = (r\<lparr>process := Some Live\<rparr>, [Spawned], None)"
| "startProcess r SpawnNoPid = (r\<lparr>process := Some NoPid\<rparr>, [Spawned], Some FailedToStart)"
| "startProcess r (SpawnThrows e) = (r, [], Some (SpawnError e))"

definition resolveCurrentCommand :: "PowerShellRunner \<Rightarrow> PowerShellRunner \<times> effect list" where
  "resolveCurrentCommand r =
     (case pendingCallbacks r of
        [] \<Rightarrow> (r, [])
      | handler # rest \<Rightarrow>
          (let r' = r\<lparr>pendingCallbacks := rest\<rparr> in
           if currentError r \<noteq> [] \<and> length (trim (currentError r)) > 0 then
             if trim (currentData r) = [] then
               (r', [Rejected handler (StderrError (currentError r))])
             else (r', [Resolved handler (trim (currentData r))])
           else (r', [Resolved handler (trim (currentData r))])))"

definition rejectCurrentCommand :: "PowerShellRunner \<Rightarrow> js_error \<Rightarrow> PowerShellRunner \<times> effect list" where
  "rejectCurrentCommand r error =
     (case pendingCallbacks r of
        [] \<Rightarrow> (r, [])
      | handler # rest \<Rightarrow> (r\<lparr>pendingCallbacks := rest\<rparr>, [Rejected handler error]))"

text \<open>The listener on \<open>stdout\<close> data.\<close>

definition on_stdout :: "PowerShellRunner \<Rightarrow> jstring \<Rightarrow> PowerShellRunner \<times> effect list" where
  "on_stdout r chunk =
     (if str_includes chunk SENTINEL then
        (let parts = split chunk SENTINEL in
         case resolveCurrentCommand (r\<lparr>currentData := currentData r @ parts ! 0\<rparr>) of
           (r', effs) \<Rightarrow>
             if length parts > 1 \<and> length (trim (parts ! 1)) > 0
             then (r'\<lparr>currentData := parts ! 1\<rparr>, effs)
             else (r', effs))
      else (r\<lparr>currentData := currentData r @ chunk\<rparr>, []))"

text \<open>
  The second element of \<open>chunk.split(sentinel)\<close> when the first sentinel of the chunk
  is at position \<open>i\<close>: what follows that sentinel, up to the next sentinel if there
  is one.
\<close>

definition next_part :: "jstring \<Rightarrow> nat \<Rightarrow> jstring" where
  "next_part chunk i =
     (let rest = drop (i + length SENTINEL) chunk in
      case indexOf SENTINEL rest of None \<Rightarrow> rest | Some j \<Rightarrow> take j rest)"

text \<open>The listeners on \<open>stderr\<close> data, on \<open>error\<close> and on \<open>exit\<close>.\<close>

definition on_stderr :: "PowerShellRunner \<Rightarrow> jstring \<Rightarrow> PowerShellRunner \<times> effect list" where
  "on_stderr r chunk = (r\<lparr>currentError := currentError r @ chunk\<rparr>, [])"

definition on_error :: "PowerShellRunner \<Rightarrow> jstring \<Rightarrow> PowerShellRunner \<times> effect list" where
  "on_error r err = rejectCurrentCommand r (ProcessError err)"

definition on_exit :: "PowerShellRunner \<Rightarrow> int option \<Rightarrow> PowerShellRunner \<times> effect list" where
  "on_exit r code = rejectCurrentCommand (r\<lparr>process := None\<rparr>) (ExitedUnexpectedly code)"

text \<open>
  \<open>invoke\<close>, for the call whose future is \<open>h\<close>. The executor of the promise
  runs at once: it enqueues the callback, resets both buffers and writes the command
  followed by the instruction that prints the sentinel.
\<close>

definition fullCommand :: "jstring \<Rightarrow> jstring" where
  "fullCommand command = command @ utf16 ''; Write-Output \"__END_OF_COMMAND__\"''"

definition invoke_executor :: "PowerShellRunner \<Rightarrow> write_outcome \<Rightarrow> handler \<Rightarrow> jstring
    \<Rightarrow> PowerShellRunner \<times> effect list" where
  "invoke_executor r wr h command =
     (let r' = r\<lparr>pendingCallbacks := pendingCallbacks r @ [h], currentData := [], currentError := []\<rparr> in
      case wr of
        WriteOk \<Rightarrow> (r', [Wrote (fullCommand command @ utf16 ''\<newline>'')])
      | WriteThrows e \<Rightarrow>
          (case pendingCallbacks r' of
             [] \<Rightarrow> (r', [])
           | handler # rest \<Rightarrow> (r'\<lparr>pendingCallbacks := rest\<rparr>, [Rejected handler (WriteError e)])))"

definition invoke :: "PowerShellRunner \<Rightarrow> spawn_outcome \<Rightarrow> write_outcome \<Rightarrow> handler \<Rightarrow> jstring
    \<Rightarrow> PowerShellRunner \<times> effect list" where
  "invoke r sp wr h command =
     (if isDisposed r \<or> process r = None then
        if \<not> isDisposed r then
          (case startProcess r sp of
             (r', effs, Some e) \<Rightarrow> (r', effs @ [Rejected h e])
           | (r', effs, None) \<Rightarrow>
               (case invoke_executor r' wr h command of (r'', effs') \<Rightarrow> (r'', effs @ effs')))
        else (r, [Rejected h RunnerDisposed])
      else invoke_executor r wr h command)"

definition dispose :: "PowerShellRunner \<Rightarrow> PowerShellRunner \<times> effect list" where
  "dispose r =
     (if process r \<noteq> None then (r\<lparr>isDisposed := True, process := None\<rparr>, [Killed])
      else (r\<lparr>isDisposed := True\<rparr>, []))"

text \<open>
  The runner is driven by calls and by events of the process, one at a time (the
  host is single-threaded); \<open>run\<close> collects the effects of a sequence of them.
\<close>

datatype event =
    Invoke spawn_outcome write_outcome handler jstring
  | StdoutData jstring
  | StderrData jstring
  | ProcError jstring
  | ProcExit "int option"
  | Dispose

fun step :: "PowerShellRunner \<Rightarrow> event \<Rightarrow> PowerShellRunner \<times> effect list" where
  "step r (Invoke sp wr h command) = invoke r sp wr h command"
| "step r (StdoutData chunk) = on_stdout r chunk"
| "step r (StderrData chunk) = on_stderr r chunk"
| "step r (ProcError err) = on_error r err"
| "step r (ProcExit code) = on_exit r code"
| "step r Dispose = dispose r"

fun run :: "PowerShellRunner \<Rightarrow> event list \<Rightarrow> PowerShellRunner \<times> effect list" where
  "run r [] = (r, [])"
| "run r (e # es) =
     (case step r e of (r', effs) \<Rightarrow>
        (case run r' es of (r'', effs') \<Rightarrow> (r'', effs @ effs')))"

text \<open>The runner as the constructor leaves it when the spawn succeeds.\<close>

definition started :: PowerShellRunner where
  "started = \<lparr>process = Some Live, isDisposed = False, pendingCallbacks = [],
              currentData = [], currentError = []\<rparr>"

section \<open>Analysis pipeline (PowerShellAstAnalyzer.analyzeContent)\<close>

text \<open>
  What \<open>JSON.parse\<close> can return for the parser script's output: the error object
  \<open>{error: true, message, type}\<close>, an array of flat nodes, \<open>null\<close>, or any other
  value (on which \<open>.error\<close> is undefined and \<open>Array.isArray\<close> is false).
\<close>

datatype json_doc =
    ErrorDoc jstring jstring
  | NodeArray "FlatAstNode list"
  | NullDoc
  | OtherDoc

text \<open>
  \<open>executePowerShell\<close> settles its promise in the listener on \<open>close\<close>: with exit
  code 0 it resolves with the output, cleaned of colour escape sequences
  (\<open>/\x1b\[[0-9;]*m/g\<close>), with \<open>\r\n\<close> turned into \<open>\n\<close>, and trimmed; with any
  other code (\<open>null\<close> after a signal) it rejects with an error that quotes both
  streams. The error is given by its rendering, as below. \<open>show_code\<close> is the
  decimal rendering of the exit code in the template string.
\<close>

function show_nat :: "nat \<Rightarrow> jstring" where
  "show_nat n =
     (if n < 10 then [of_nat (48 + n)]
      else show_nat (n div 10) @ [of_nat (48 + n mod 10)])"
  by pat_completeness auto
termination
  by (relation "measure id") auto

declare show_nat.simps [simp del]

definition show_code :: "int option \<Rightarrow> jstring" where
  "show_code code =
     (case code of
        None \<Rightarrow> utf16 ''null''
      | Some i \<Rightarrow> if i < 0 then utf16 ''-'' @ show_nat (nat (- i)) else show_nat (nat i))"

definition is_sgr_param :: "code_unit \<Rightarrow> bool" where
  "is_sgr_param c = ((0x30 \<le> c \<and> c \<le> 0x39) \<or> c = 0x3B)"

function strip_ansi :: "jstring \<Rightarrow> jstring" where
  "strip_ansi [] = []"
| "strip_ansi (c # cs) =
     (if c = 0x1B \<and> take 1 cs = [0x5B] \<and> take 1 (dropWhile is_sgr_param (drop 1 cs)) = [0x6D]
      then strip_ansi (drop 1 (dropWhile is_sgr_param (drop 1 cs)))
      else c # strip_ansi cs)"
  by pat_completeness auto
termination
proof (relation "measure length")
  show "wf (measure length)" by simp
next
  fix c :: code_unit and cs :: jstring
  have "length (dropWhile is_sgr_param (drop 1 cs)) \<le> length (drop 1 cs)"
    by (rule length_dropWhile_le)
  then show "(drop 1 (dropWhile is_sgr_param (drop 1 cs)), c # cs) \<in> measure length"
    by simp
next
  fix c :: code_unit and cs :: jstring
  show "(cs, c # cs) \<in> measure length" by simp
qed

declare strip_ansi.simps [simp del]

fun normalize_crlf :: "jstring \<Rightarrow> jstring" where
  "normalize_crlf (a # b # cs) =
     (if a = 0x0D \<and> b = 0x0A then 0x0A # normalize_crlf cs else a # normalize_crlf (b # cs))"
| "normalize_crlf cs = cs"

definition executePowerShell_close :: "int option \<Rightarrow> jstring \<Rightarrow> jstring \<Rightarrow> jstring + jstring" where
  "executePowerShell_close code stdout stderr =
     (if code = Some 0 then Inr (trim (normalize_crlf (strip_ansi stdout)))
      else Inl (utf16 ''Error: PowerShell execution failed (exit code '' @ show_code code
                @ utf16 ''). STDERR: '' @ stderr @ utf16 ''. STDOUT: '' @ stdout))"

text \<open>
  The body of the outer \<open>try\<close>. An error value is represented by its rendering in a
  template string (\<open>Error: \<close> followed by the message). \<open>executed\<close> is the outcome
  of \<open>executePowerShell\<close>: \<open>Inl\<close> the error it rejected with, \<open>Inr\<close> its output.
  \<open>JSON_parse\<close> returns \<open>Inl\<close> for a syntax error.
\<close>

definition analyzeContent_try :: "(jstring \<Rightarrow> jstring + json_doc) \<Rightarrow> jstring + jstring
    \<Rightarrow> jstring + (ref list \<times> nodeMap)" where
  "analyzeContent_try JSON_parse executed =
     (case executed of
        Inl e \<Rightarrow> Inl e
      | Inr result \<Rightarrow>
          if trim result \<noteq> [] then
            (case (case JSON_parse result of
                     Inl e \<Rightarrow> Inl e
                   | Inr astData \<Rightarrow>
                       (case astData of
                          ErrorDoc message ty \<Rightarrow>
                            Inl (utf16 ''Error: PowerShell parsing error: '' @ message)
                        | NullDoc \<Rightarrow>
                            Inl (utf16 ''TypeError: Cannot read properties of null (reading 'error')'')
                        | NodeArray flatData \<Rightarrow> Inr (buildTreeFromFlatData flatData)
                        | OtherDoc \<Rightarrow> Inr ([], []))) of
               Inl parseError \<Rightarrow>
                 Inl (utf16 ''Error: JSON parsing failed: '' @ parseError
                      @ utf16 ''. Raw output: '' @ take 200 result @ utf16 ''...'')
             | Inr mappedData \<Rightarrow> Inr mappedData)
          else Inl (utf16 ''Error: No output returned from PowerShell script''))"

text \<open>
  \<open>analyzeContent\<close>: the messages shown with \<open>showErrorMessage\<close>, and the outcome of
  the returned promise (\<open>Inl\<close> a rejection, \<open>Inr\<close> the value it resolves with).
\<close>

definition analyzeContent :: "(jstring \<Rightarrow> jstring + json_doc) \<Rightarrow> jstring + jstring
    \<Rightarrow> jstring list \<times> (jstring + (ref list \<times> nodeMap))" where
  "analyzeContent JSON_parse executed =
     (case analyzeContent_try JSON_parse executed of
        Inl error \<Rightarrow> ([utf16 ''Failed to analyze PowerShell AST: '' @ error], Inr ([], []))
      | Inr mappedData \<Rightarrow> ([], Inr mappedData))"

section \<open>Properties of the truncation\<close>

lemma length_utf16 [simp]: "length (utf16 s) = length s"
  by (simp add: utf16_def)

text \<open>
  C10. A node text longer than 100 code units is emitted as its first 100 code units
  followed by \<open>...\<close>, a property value longer than 200 as its first 200 followed by
  \<open>...\<close>; a string at or under the cap is emitted unchanged.
\<close>

theorem truncation_rule:
  "nodeData_text s = Inr (if 100 < length s then take 100 s @ utf16 ''...'' else s) \<and>
   map_sum id Value (AstProperty_new n v t) =
     Inr (if 200 < length v then take 200 v @ utf16 ''...'' else v)"
  by (auto simp: nodeData_text_def AstProperty_new_def TrimString_def TrimString2_def)

theorem truncation_rule_witness:
  "map_sum id Value (AstProperty_new (utf16 ''Name'') (replicate 250 0x61) (utf16 ''string'')) =
     Inr (replicate 200 0x61 @ utf16 ''...'') \<and>
   nodeData_text (replicate 100 0x61) = Inr (replicate 100 0x61)"
  using truncation_rule [of "replicate 100 0x61" "utf16 ''Name''" "replicate 250 0x61" "utf16 ''string''"]
  by simp

section \<open>Properties of the locator\<close>

lemma locate_snoc:
  "locate (nodes @ [node]) line column = locate_step line column node (locate nodes line column)"
  by (simp add: locate_def)

lemma locate_sound:
  "locate nodes line column = Some n \<Longrightarrow>
     n \<in> set nodes \<and>
     (startLine n < line \<or> (startLine n = line \<and> startColumn n \<le> column)) \<and>
     (endLine n > line \<or> (endLine n = line \<and> endColumn n \<ge> column))"
proof (induction nodes arbitrary: n rule: rev_induct)
  case Nil
  then show ?case by (simp add: locate_def)
next
  case (snoc x xs)
  then show ?case
    unfolding locate_snoc locate_step_def
    by (auto split: if_splits option.splits)
qed

lemma locate_none:
  "locate nodes line column = None \<longleftrightarrow>
     (\<forall>m \<in> set nodes. \<not> ((startLine m < line \<or> (startLine m = line \<and> startColumn m \<le> column)) \<and>
        (endLine m > line \<or> (endLine m = line \<and> endColumn m \<ge> column))))"
proof (induction nodes rule: rev_induct)
  case Nil
  then show ?case by (simp add: locate_def)
next
  case (snoc x xs)
  then show ?case
    unfolding locate_snoc locate_step_def
    by (auto split: if_splits option.splits)
qed

lemma locate_minimal:
  "locate nodes line column = Some n \<Longrightarrow> m \<in> set nodes \<Longrightarrow>
   (startLine m < line \<or> (startLine m = line \<and> startColumn m \<le> column)) \<Longrightarrow>
   (endLine m > line \<or> (endLine m = line \<and> endColumn m \<ge> column)) \<Longrightarrow>
   textLength n \<le> textLength m"
proof (induction nodes arbitrary: n rule: rev_induct)
  case Nil
  then show ?case by simp
next
  case (snoc x xs)
  show ?case
  proof (cases "m = x")
    case True
    with snoc.prems show ?thesis
      unfolding locate_snoc locate_step_def
      by (auto split: if_splits option.splits)
  next
    case False
    with snoc.prems have m: "m \<in> set xs" by simp
    from snoc.prems(1) show ?thesis
      unfolding locate_snoc locate_step_def
      using snoc.IH [OF _ m snoc.prems(3) snoc.prems(4)] locate_none [of xs line column]
        m snoc.prems(3) snoc.prems(4)
      by (auto split: if_splits option.splits)
  qed
qed

text \<open>
  C5. A node contains the position exactly when it starts at or before it and ends at
  or after it (both ends inclusive). The locator returns none exactly when no node of
  the index contains the position, and otherwise a node of the index that contains the
  position and whose \<open>textLength\<close> is minimal among the containing nodes.
\<close>

theorem locate_correct:
  "(locate nodes line column = None \<longleftrightarrow>
      (\<forall>m \<in> set nodes. \<not> ((startLine m < line \<or> (startLine m = line \<and> startColumn m \<le> column)) \<and>
         (endLine m > line \<or> (endLine m = line \<and> endColumn m \<ge> column))))) \<and>
   (\<forall>n. locate nodes line column = Some n \<longrightarrow>
      n \<in> set nodes \<and>
      (startLine n < line \<or> (startLine n = line \<and> startColumn n \<le> column)) \<and>
      (endLine n > line \<or> (endLine n = line \<and> endColumn n \<ge> column)) \<and>
      (\<forall>m \<in> set nodes.
         (startLine m < line \<or> (startLine m = line \<and> startColumn m \<le> column)) \<and>
         (endLine m > line \<or> (endLine m = line \<and> endColumn m \<ge> column)) \<longrightarrow>
         textLength n \<le> textLength m))"
  using locate_none [of nodes line column] locate_sound [of nodes line column]
    locate_minimal [of nodes line column]
  by blast

theorem locate_correct_witness:
  "locate (map toTreeNode
      [spanNode ''A'' 1 None (1, 1) (3, 1) 20,
       spanNode ''B'' 2 (Some 1) (2, 1) (2, 10) 9,
       spanNode ''C'' 3 (Some 2) (2, 3) (2, 5) 2]) 2 5
     = Some (toTreeNode (spanNode ''C'' 3 (Some 2) (2, 3) (2, 5) 2)) \<and>
   locate (map toTreeNode
      [spanNode ''A'' 1 None (1, 1) (3, 1) 20,
       spanNode ''B'' 2 (Some 1) (2, 1) (2, 10) 9,
       spanNode ''C'' 3 (Some 2) (2, 3) (2, 5) 2]) 2 5 \<noteq> None"
  using locate_correct [of "map toTreeNode
      [spanNode ''A'' 1 None (1, 1) (3, 1) 20,
       spanNode ''B'' 2 (Some 1) (2, 1) (2, 10) 9,
       spanNode ''C'' 3 (Some 2) (2, 3) (2, 5) 2]" 2 5]
  by (simp add: locate_def locate_step_def toTreeNode_def spanNode_def)

section \<open>Properties of the tree builder\<close>

lemma map_of_map_set: "map_of (map_set k v m) = (map_of m)(k \<mapsto> v)"
  by (induction m) (auto simp: fun_eq_iff)

lemma keys_map_set: "fst ` set (map_set k v m) = insert k (fst ` set m)"
  by (simp add: dom_map_of_conv_image_fst [symmetric] map_of_map_set)

lemma distinct_map_set: "distinct (map fst m) \<Longrightarrow> distinct (map fst (map_set k v m))"
  by (induction m) (auto simp: keys_map_set)

lemma map_set_fresh: "k \<notin> set (map fst m) \<Longrightarrow> map_set k v m = m @ [(k, v)]"
  by (induction m) auto

lemma fold_map_set_fresh:
  "distinct (map flat_hashCode xs) \<Longrightarrow> set (map flat_hashCode xs) \<inter> set (map fst acc) = {} \<Longrightarrow>
   fold (\<lambda>flatNode nodeMap. map_set (flat_hashCode flatNode) (toTreeNode flatNode) nodeMap) xs acc
     = acc @ map (\<lambda>n. (flat_hashCode n, toTreeNode n)) xs"
proof (induction xs arbitrary: acc)
  case Nil
  then show ?case by simp
next
  case (Cons x xs)
  from Cons.prems have fresh: "flat_hashCode x \<notin> set (map fst acc)" by auto
  have "set (map flat_hashCode xs) \<inter> set (map fst (acc @ [(flat_hashCode x, toTreeNode x)])) = {}"
    using Cons.prems by auto
  with Cons.prems Cons.IH [of "acc @ [(flat_hashCode x, toTreeNode x)]"] fresh
  show ?case by (simp add: map_set_fresh)
qed

lemma firstPass_unique:
  "unique_hashes L \<Longrightarrow> firstPass L = map (\<lambda>n. (flat_hashCode n, toTreeNode n)) L"
  unfolding firstPass_def unique_hashes_def
  using fold_map_set_fresh [of L "[]"] by simp

lemma map_of_map_entries:
  "map_of (map (\<lambda>(k, obj). (k, f k obj)) m) k = map_option (f k) (map_of m k)"
  by (induction m) auto

lemma link_step_spec:
  assumes "h \<in> set (map fst m0)"
  shows "link_step h (link_spec m0 done) = link_spec m0 (done @ [h])"
proof -
  from assms obtain obj where obj: "map_of m0 h = Some obj"
    by (metis (no_types) domIff dom_map_of_conv_image_fst list.set_map not_Some_eq)
  let ?f = "\<lambda>k obj. obj\<lparr>children := children obj @ filter (\<lambda>c. par m0 c = Some k) done\<rparr>"
  have look: "\<And>k. map_get (fst (link_spec m0 done)) k = map_option (?f k) (map_of m0 k)"
    unfolding link_spec_def map_get_def by (simp add: map_of_map_entries)
  show ?thesis
  proof (cases "parentHashCode obj")
    case None
    then have "par m0 h = None" by (simp add: par_def obj)
    then show ?thesis
      using obj None look [of h]
      by (simp add: link_step_def link_spec_def map_get_def map_of_map_entries)
  next
    case (Some p)
    then have ph: "par m0 h = Some p" by (simp add: par_def obj)
    show ?thesis
    proof (cases "map_of m0 p")
      case None
      then have "\<forall>e \<in> set m0. fst e \<noteq> p"
        by (metis map_of_eq_None_iff image_eqI)
      then have "map (\<lambda>(k, obj). (k, ?f k obj)) m0
          = map (\<lambda>(k, obj). (k, obj\<lparr>children := children obj @ filter (\<lambda>c. par m0 c = Some k) (done @ [h])\<rparr>)) m0"
        using ph by (auto intro!: map_cong)
      then show ?thesis
        using obj Some None ph
        by (simp add: link_step_def link_spec_def map_get_def map_of_map_entries)
    next
      case (Some parent)
      have "push_child p h (map (\<lambda>(k, obj). (k, ?f k obj)) m0)
          = map (\<lambda>(k, obj). (k, obj\<lparr>children := children obj @ filter (\<lambda>c. par m0 c = Some k) (done @ [h])\<rparr>)) m0"
        unfolding push_child_def using ph by (auto intro!: map_cong)
      then show ?thesis
        using obj \<open>parentHashCode obj = Some p\<close> Some ph
        by (simp add: link_step_def link_spec_def map_get_def map_of_map_entries)
    qed
  qed
qed

lemma fold_link_step:
  "set done \<subseteq> set (map fst m0) \<Longrightarrow> fold link_step done (m0, []) = link_spec m0 done"
proof (induction "done" rule: rev_induct)
  case Nil
  have "map (\<lambda>(k, obj). (k, obj\<lparr>children := children obj @ []\<rparr>)) m0 = m0"
    by (induction m0) auto
  then show ?case by (simp add: link_spec_def)
next
  case (snoc h hs)
  then show ?case by (simp add: link_step_spec)
qed

lemma secondPass_spec: "secondPass m0 = link_spec m0 (map fst m0)"
  unfolding secondPass_def by (rule fold_link_step) simp

lemma those_map_Some:
  "those (map g xs) = Some ts \<longleftrightarrow> list_all2 (\<lambda>x t. g x = Some t) xs ts"
proof (induction xs arbitrary: ts)
  case Nil
  then show ?case by auto
next
  case (Cons x xs)
  then show ?case
    by (cases ts) (auto split: option.splits)
qed

lemma those_map_total:
  "(\<forall>x \<in> set xs. \<exists>t. g x = Some t) \<Longrightarrow> \<exists>ts. those (map g xs) = Some ts"
  by (induction xs) (auto split: option.splits)

lemma well_linked_children:
  "well_linked m \<Longrightarrow> map_of m k = Some obj \<Longrightarrow> children obj = kids m k"
  unfolding well_linked_def by (auto dest!: map_of_SomeD)

lemma reify_flatK:
  "well_linked m \<Longrightarrow> reify f m k = Some t \<Longrightarrow>
   preorder t = map (\<lambda>r. the (map_of m r)) (flatK m f k)"
proof (induction f arbitrary: k t)
  case 0
  then show ?case by simp
next
  case (Suc f)
  from Suc.prems(2) obtain obj ts where
    obj: "map_of m k = Some obj" and
    ts: "those (map (reify f m) (children obj)) = Some ts" and
    t: "t = Tree obj ts"
    by (auto simp: map_get_def split: option.splits)
  from ts have all2: "list_all2 (\<lambda>x t. reify f m x = Some t) (children obj) ts"
    by (simp add: those_map_Some)
  have "concat (map preorder ts) = concat (map (\<lambda>c. map (\<lambda>r. the (map_of m r)) (flatK m f c)) (children obj))"
    using all2
  proof (induction rule: list_all2_induct)
    case Nil
    then show ?case by simp
  next
    case (Cons x xs y ys)
    then show ?case using Suc.IH [OF Suc.prems(1), of x y] by simp
  qed
  then show ?case
    using obj t well_linked_children [OF Suc.prems(1) obj]
    by (simp add: map_concat comp_def)
qed

lemma depth_is_key: "depth_is m d k \<Longrightarrow> k \<in> set (map fst m)"
  by (cases d) (auto split: option.splits dest!: map_of_SomeD simp: image_iff, force+)

lemma depth_is_child:
  "depth_is m d k \<Longrightarrow> c \<in> set (kids m k) \<Longrightarrow> depth_is m (Suc d) c"
  unfolding kids_def par_def by (auto split: option.splits)

lemma reify_succeeds:
  assumes wl: "well_linked m" and bound: "\<And>k d. depth_is m d k \<Longrightarrow> d < n"
  shows "depth_is m d k \<Longrightarrow> n \<le> d + f \<Longrightarrow> \<exists>t. reify f m k = Some t"
proof (induction f arbitrary: d k)
  case 0
  with bound [of d k] show ?case by simp
next
  case (Suc f)
  from Suc.prems(1) obtain obj where obj: "map_of m k = Some obj"
    by (cases d) (auto split: option.splits)
  have "\<forall>c \<in> set (children obj). \<exists>t. reify f m c = Some t"
  proof
    fix c assume "c \<in> set (children obj)"
    then have "c \<in> set (kids m k)" using well_linked_children [OF wl obj] by simp
    then have "depth_is m (Suc d) c" using Suc.prems(1) by (rule depth_is_child [rotated])
    then show "\<exists>t. reify f m c = Some t"
      using Suc.IH [of "Suc d" c] Suc.prems(2) by simp
  qed
  then obtain ts where "those (map (reify f m) (children obj)) = Some ts"
    using those_map_total by blast
  then show ?case using obj by (simp add: map_get_def)
qed

lemma gen_shift: "gen m (Suc j) ks = gen m j (concat (map (kids m) ks))"
  by (induction j) auto

lemma mset_concat_cons:
  "mset (concat (map (\<lambda>k. k # g k) ks)) = mset ks + mset (concat (map g ks))"
  by (induction ks) auto

lemma flatK_levels:
  "mset (concat (map (flatK m f) ks)) = (\<Sum>j<f. mset (gen m j ks))"
proof (induction f arbitrary: ks)
  case 0
  then show ?case by (induction ks) auto
next
  case (Suc f)
  have unf: "flatK m (Suc f) = (\<lambda>k. k # concat (map (flatK m f) (kids m k)))"
    by (rule ext) simp
  have "mset (concat (map (flatK m (Suc f)) ks))
      = mset ks + mset (concat (map (\<lambda>k. concat (map (flatK m f) (kids m k))) ks))"
    unfolding unf by (rule mset_concat_cons)
  also have "concat (map (\<lambda>k. concat (map (flatK m f) (kids m k))) ks)
      = concat (map (flatK m f) (concat (map (kids m) ks)))"
    by (induction ks) auto
  also have "mset \<dots> = (\<Sum>j<f. mset (gen m (Suc j) ks))"
    using Suc.IH [of "concat (map (kids m) ks)"] by (simp only: gen_shift)
  finally have "mset (concat (map (flatK m (Suc f)) ks))
      = mset ks + (\<Sum>j<f. mset (gen m (Suc j) ks))" .
  then show ?case
    by (simp only: sum.lessThan_Suc_shift gen.simps(1))
qed

lemma mset_concat_map: "mset (concat (map g xs)) = (\<Sum>x\<in>#mset xs. mset (g x))"
  by (induction xs) auto

lemma mset_filter_disj:
  "(\<And>x. \<not> (P x \<and> Q x)) \<Longrightarrow>
   mset (filter P xs) + mset (filter Q xs) = mset (filter (\<lambda>x. P x \<or> Q x) xs)"
  by (induction xs) auto

lemma sum_kids:
  "distinct ps \<Longrightarrow>
   (\<Sum>p\<in>#mset ps. mset (kids m p)) = mset (filter (\<lambda>c. \<exists>p\<in>set ps. par m c = Some p) (map fst m))"
proof (induction ps)
  case Nil
  then show ?case by simp
next
  case (Cons p ps)
  have disj: "\<And>c. \<not> (par m c = Some p \<and> (\<exists>q\<in>set ps. par m c = Some q))"
    using Cons.prems by auto
  have "(\<Sum>q\<in>#mset (p # ps). mset (kids m q))
      = mset (filter (\<lambda>c. par m c = Some p) (map fst m))
        + mset (filter (\<lambda>c. \<exists>q\<in>set ps. par m c = Some q) (map fst m))"
    using Cons by (simp add: kids_def)
  also have "\<dots> = mset (filter (\<lambda>c. par m c = Some p \<or> (\<exists>q\<in>set ps. par m c = Some q)) (map fst m))"
    by (rule mset_filter_disj) (rule disj)
  also have "\<dots> = mset (filter (\<lambda>c. \<exists>q\<in>set (p # ps). par m c = Some q) (map fst m))"
    by (rule arg_cong [where f = mset], rule filter_cong) auto
  finally show ?case .
qed

lemma depth_is_Suc_iff:
  "depth_is m (Suc j) c \<longleftrightarrow> (\<exists>p. par m c = Some p \<and> depth_is m j p)"
  by (auto simp: par_def split: option.splits)

lemma depth_is_0_iff:
  "depth_is m 0 c \<longleftrightarrow> c \<in> set (map fst m) \<and> par m c = None"
proof (cases "map_of m c")
  case None
  then have "c \<notin> set (map fst m)" by (simp add: map_of_eq_None_iff)
  with None show ?thesis by simp
next
  case (Some obj)
  then have "c \<in> set (map fst m)" by (auto dest!: map_of_SomeD simp: image_iff) force
  with Some show ?thesis by (simp add: par_def)
qed

lemma gen_levels:
  assumes d: "distinct (map fst m)"
  shows "mset (gen m j (roots_of m)) = mset (filter (depth_is m j) (map fst m))"
proof (induction j)
  case 0
  have "filter (\<lambda>c. par m c = None) (map fst m) = filter (depth_is m 0) (map fst m)"
    by (rule filter_cong) (auto simp: depth_is_0_iff simp del: depth_is.simps)
  then show ?case by (simp add: roots_of_def)
next
  case (Suc j)
  let ?ps = "filter (depth_is m j) (map fst m)"
  have dps: "distinct ?ps" using d by simp
  have "mset (gen m (Suc j) (roots_of m)) = (\<Sum>x\<in>#mset (gen m j (roots_of m)). mset (kids m x))"
    by (simp add: mset_concat_map)
  also have "\<dots> = (\<Sum>x\<in>#mset ?ps. mset (kids m x))"
    by (simp only: Suc.IH)
  also have "\<dots> = mset (filter (\<lambda>c. \<exists>p\<in>set ?ps. par m c = Some p) (map fst m))"
    by (rule sum_kids [OF dps])
  also have "\<dots> = mset (filter (depth_is m (Suc j)) (map fst m))"
  proof (rule arg_cong [where f = mset], rule filter_cong [OF refl])
    fix c assume "c \<in> set (map fst m)"
    show "(\<exists>p\<in>set ?ps. par m c = Some p) = depth_is m (Suc j) c"
      unfolding depth_is_Suc_iff using depth_is_key [of m j] by auto
  qed
  finally show ?case .
qed

lemma depth_is_unique: "depth_is m d k \<Longrightarrow> depth_is m d' k \<Longrightarrow> d = d'"
proof (induction d arbitrary: d' k)
  case 0
  then show ?case by (cases d') (auto split: option.splits)
next
  case (Suc d)
  then show ?case by (cases d') (auto split: option.splits)
qed

lemma depth_partition:
  "(\<forall>k\<in>set ks. \<exists>d<f. depth_is m d k) \<Longrightarrow>
   (\<Sum>j<f. mset (filter (depth_is m j) ks)) = mset ks"
proof (induction ks)
  case Nil
  then show ?case by simp
next
  case (Cons k ks)
  then obtain d0 where d0: "d0 < f" "depth_is m d0 k" by auto
  have one: "\<And>j. depth_is m j k \<longleftrightarrow> j = d0"
    using d0 depth_is_unique by blast
  have "(\<Sum>j<f. mset (filter (depth_is m j) (k # ks)))
      = (\<Sum>j<f. (if j = d0 then {#k#} else {#}) + mset (filter (depth_is m j) ks))"
    by (rule sum.cong) (auto simp: one)
  also have "\<dots> = (\<Sum>j<f. (if j = d0 then {#k#} else {#})) + (\<Sum>j<f. mset (filter (depth_is m j) ks))"
    by (simp add: sum.distrib)
  also have "(\<Sum>j<f. (if j = d0 then {#k#} else {#})) = {#k#}"
    using d0(1) by (simp add: sum.delta)
  finally show ?case using Cons by simp
qed

lemma flatK_all_keys:
  assumes d: "distinct (map fst m)" and ex: "\<forall>k\<in>set (map fst m). \<exists>d<f. depth_is m d k"
  shows "mset (concat (map (flatK m f) (roots_of m))) = mset (map fst m)"
  unfolding flatK_levels gen_levels [OF d] using depth_partition [OF ex] .

lemma build_eq:
  "buildTreeFromFlatData L = (snd (secondPass (firstPass L)), fst (secondPass (firstPass L)))"
  by (cases L) (simp_all add: buildTreeFromFlatData_def firstPass_def secondPass_def split: prod.splits)

lemma map_of_entries_find:
  "map_of (map (\<lambda>n. (key n, val n)) L) h = map_option val (find (\<lambda>n. key n = h) L)"
  by (induction L) auto

lemma toFlat_toTreeNode [simp]: "toFlat ((toTreeNode n)\<lparr>children := cs\<rparr>) = n"
  by (simp add: toFlat_def toTreeNode_def)

lemma build_store:
  assumes u: "unique_hashes L" and b: "buildTreeFromFlatData L = (rs, m)"
  shows store_keys: "map fst m = map flat_hashCode L"
    and store_lookup: "\<And>h. map_of m h = map_option (\<lambda>n. (toTreeNode n)\<lparr>children := kids m (flat_hashCode n)\<rparr>)
                          (find (\<lambda>n. flat_hashCode n = h) L)"
    and store_par: "\<And>h. par m h = (case find (\<lambda>n. flat_hashCode n = h) L of
                          None \<Rightarrow> None | Some n \<Rightarrow> flat_parentHashCode n)"
    and store_linked: "well_linked m"
    and store_roots: "rs = roots_of m"
    and store_values: "map (\<lambda>e. toFlat (snd e)) m = L"
proof -
  let ?m0 = "map (\<lambda>n. (flat_hashCode n, toTreeNode n)) L"
  let ?ks = "map flat_hashCode L"
  have m0: "firstPass L = ?m0" using u by (rule firstPass_unique)
  have ks0: "map fst ?m0 = ?ks" by (simp add: comp_def)
  have sp: "secondPass ?m0 = link_spec ?m0 ?ks"
    using secondPass_spec [of ?m0] by (simp only: ks0)
  from b have m: "m = map (\<lambda>n. (flat_hashCode n,
        (toTreeNode n)\<lparr>children := filter (\<lambda>c. par ?m0 c = Some (flat_hashCode n)) ?ks\<rparr>)) L"
    and rs: "rs = filter (\<lambda>c. map_of ?m0 c \<noteq> None \<and> par ?m0 c = None) ?ks"
    unfolding build_eq m0 sp link_spec_def
    by (simp_all add: comp_def toTreeNode_def)
  show keys: "map fst m = ?ks" by (simp add: m comp_def)
  have par0: "\<And>h. par ?m0 h = (case find (\<lambda>n. flat_hashCode n = h) L of
        None \<Rightarrow> None | Some n \<Rightarrow> flat_parentHashCode n)"
    unfolding par_def map_of_entries_find
    by (simp add: toTreeNode_def split: option.splits)
  show par: "\<And>h. par m h = (case find (\<lambda>n. flat_hashCode n = h) L of
        None \<Rightarrow> None | Some n \<Rightarrow> flat_parentHashCode n)"
    unfolding par_def m map_of_entries_find
    by (simp add: toTreeNode_def split: option.splits)
  have pareq: "par m = par ?m0" using par par0 by (simp add: fun_eq_iff)
  have kidsm: "\<And>k. kids m k = filter (\<lambda>c. par ?m0 c = Some k) ?ks"
    by (simp add: kids_def keys pareq)
  show "\<And>h. map_of m h = map_option (\<lambda>n. (toTreeNode n)\<lparr>children := kids m (flat_hashCode n)\<rparr>)
      (find (\<lambda>n. flat_hashCode n = h) L)"
    unfolding kidsm by (subst m) (rule map_of_entries_find)
  have "distinct (map fst m)" using u by (simp add: keys unique_hashes_def)
  moreover have "\<forall>e \<in> set m. children (snd e) = kids m (fst e)"
    unfolding kidsm by (subst m) auto
  ultimately show "well_linked m" by (simp add: well_linked_def)
  have "filter (\<lambda>c. map_of ?m0 c \<noteq> None \<and> par ?m0 c = None) ?ks = filter (\<lambda>c. par ?m0 c = None) ?ks"
    by (rule filter_cong [OF refl]) (auto simp: map_of_eq_None_iff image_iff)
  then show "rs = roots_of m" by (simp add: rs roots_of_def keys pareq)
  show "map (\<lambda>e. toFlat (snd e)) m = L"
    by (subst m) (simp add: comp_def)
qed

lemma find_hash_unique:
  "unique_hashes L \<Longrightarrow> n \<in> set L \<Longrightarrow> find (\<lambda>x. flat_hashCode x = flat_hashCode n) L = Some n"
  unfolding unique_hashes_def
  by (induction L) (auto simp: image_iff)

lemma reaches_root_depth:
  assumes par: "\<And>h. par m h = (case find (\<lambda>n. flat_hashCode n = h) L of
                          None \<Rightarrow> None | Some n \<Rightarrow> flat_parentHashCode n)"
      and look: "\<And>h. map_of m h = None \<longleftrightarrow> find (\<lambda>n. flat_hashCode n = h) L = None"
  shows "reaches_root L f h \<Longrightarrow> \<exists>d<f. depth_is m d h"
proof (induction f arbitrary: h)
  case 0
  then show ?case by simp
next
  case (Suc f)
  from Suc.prems obtain n where n: "find (\<lambda>n. flat_hashCode n = h) L = Some n"
    by (auto split: option.splits)
  then have key: "h \<in> set (map fst m)"
    using look [of h] by (auto simp: map_of_eq_None_iff)
  show ?case
  proof (cases "flat_parentHashCode n")
    case None
    then have "depth_is m 0 h"
      unfolding depth_is_0_iff using key par [of h] n by simp
    then show ?thesis by blast
  next
    case (Some p)
    with Suc.prems n have "reaches_root L f p" by simp
    then obtain d where d: "d < f" "depth_is m d p" using Suc.IH by blast
    have "par m h = Some p" using par [of h] n Some by simp
    with d(2) have "depth_is m (Suc d) h" unfolding depth_is_Suc_iff by blast
    with d(1) show ?thesis by (metis Suc_less_eq)
  qed
qed

lemma reify_root: "reify f m r = Some t \<Longrightarrow> map_of m r = Some (root t)"
  by (cases f) (auto simp: map_get_def split: option.splits)

lemma map_of_fst_snd: "distinct (map fst m) \<Longrightarrow> e \<in> set m \<Longrightarrow> map_of m (fst e) = Some (snd e)"
  by (cases e) simp

lemma forest_main:
  assumes u: "unique_hashes L" and a: "acyclic_parents L"
  shows "\<exists>F. forest_of (buildTreeFromFlatData L) = Some F \<and>
           mset (map toFlat (flatten F)) = mset L \<and>
           map (\<lambda>t. toFlat (root t)) F = filter (\<lambda>n. flat_parentHashCode n = None) L"
proof -
  obtain rs m where b: "buildTreeFromFlatData L = (rs, m)" by (cases "buildTreeFromFlatData L")
  note keys = store_keys [OF u b] and look = store_lookup [OF u b] and par = store_par [OF u b]
    and wl = store_linked [OF u b] and rs = store_roots [OF u b] and vals = store_values [OF u b]
  define fuel where "fuel = Suc (length m)"
  let ?look = "\<lambda>r. the (map_of m r)"
  have len: "length m = length L" using keys by (metis length_map)
  have dist: "distinct (map fst m)" using wl by (simp add: well_linked_def)
  have none_iff: "\<And>h. map_of m h = None \<longleftrightarrow> find (\<lambda>n. flat_hashCode n = h) L = None"
    by (simp add: look)
  have ex: "\<forall>k\<in>set (map fst m). \<exists>d<length L. depth_is m d k"
  proof
    fix k assume "k \<in> set (map fst m)"
    then obtain n where "n \<in> set L" "k = flat_hashCode n" unfolding keys by auto
    with a have "reaches_root L (length L) k" by (simp add: acyclic_parents_def)
    then show "\<exists>d<length L. depth_is m d k"
      by (rule reaches_root_depth [OF par none_iff])
  qed
  have bound: "\<And>k d. depth_is m d k \<Longrightarrow> d < length L"
    using ex depth_is_key depth_is_unique by blast
  have "\<forall>r\<in>set rs. \<exists>t. reify fuel m r = Some t"
  proof
    fix r assume "r \<in> set rs"
    then have "depth_is m 0 r" unfolding rs roots_of_def depth_is_0_iff by simp
    then show "\<exists>t. reify fuel m r = Some t"
      using reify_succeeds [where n = "length L" and d = 0 and k = r and f = fuel, OF wl bound] len
      by (simp add: fuel_def)
  qed
  then obtain F where F: "those (map (reify fuel m) rs) = Some F"
    using those_map_total by blast
  then have all2: "list_all2 (\<lambda>r t. reify fuel m r = Some t) rs F"
    by (simp add: those_map_Some)
  have forest: "forest_of (buildTreeFromFlatData L) = Some F"
    using F by (simp add: b forest_of_def fuel_def)
  have flat: "flatten F = map ?look (concat (map (flatK m fuel) rs))"
    unfolding flatten_def using all2
  proof (induction rule: list_all2_induct)
    case Nil
    then show ?case by simp
  next
    case (Cons r rs t ts)
    then show ?case using reify_flatK [OF wl, of fuel r t] by simp
  qed
  have ex': "\<forall>k\<in>set (map fst m). \<exists>d<fuel. depth_is m d k"
    using ex len unfolding fuel_def by (metis less_Suc_eq)
  have "mset (concat (map (flatK m fuel) rs)) = mset (map fst m)"
    unfolding rs by (rule flatK_all_keys [OF dist ex'])
  then have "mset (map (\<lambda>r. toFlat (?look r)) (concat (map (flatK m fuel) rs)))
      = mset (map (\<lambda>r. toFlat (?look r)) (map fst m))"
    by (metis mset_map)
  also have "map (\<lambda>r. toFlat (?look r)) (map fst m) = map (\<lambda>e. toFlat (snd e)) m"
    using map_of_fst_snd [OF dist] by (auto simp: comp_def)
  finally have all: "mset (map toFlat (flatten F)) = mset L"
    by (simp add: flat vals comp_def)
  have "map root F = map ?look rs"
    using all2 by (induction rule: list_all2_induct) (auto dest: reify_root)
  then have "map (\<lambda>t. toFlat (root t)) F = map (\<lambda>r. toFlat (?look r)) rs"
    by (metis (no_types, lifting) map_map comp_def map_eq_conv)
  also have "\<dots> = map (\<lambda>n. toFlat (?look (flat_hashCode n)))
        (filter (\<lambda>n. par m (flat_hashCode n) = None) L)"
    by (simp add: rs roots_of_def keys filter_map comp_def)
  also have "filter (\<lambda>n. par m (flat_hashCode n) = None) L = filter (\<lambda>n. flat_parentHashCode n = None) L"
    by (rule filter_cong [OF refl]) (simp add: par find_hash_unique [OF u])
  also have "map (\<lambda>n. toFlat (?look (flat_hashCode n))) (filter (\<lambda>n. flat_parentHashCode n = None) L)
      = filter (\<lambda>n. flat_parentHashCode n = None) L"
    by (rule map_idI) (simp add: look find_hash_unique [OF u])
  finally show ?thesis using forest all by blast
qed

text \<open>
  Whatever the input list, the result of the builder reads as a forest: the fuel of
  \<open>forest_of\<close> is never used up, since the keys on a path from a root are distinct.
\<close>

lemma firstPass_general:
  "distinct (map fst (firstPass L)) \<and> (\<forall>e \<in> set (firstPass L). children (snd e) = [])"
proof -
  have "distinct (map fst acc) \<and> (\<forall>e \<in> set acc. children (snd e) = []) \<Longrightarrow>
        distinct (map fst (fold (\<lambda>flatNode nodeMap. map_set (flat_hashCode flatNode) (toTreeNode flatNode) nodeMap) L acc)) \<and>
        (\<forall>e \<in> set (fold (\<lambda>flatNode nodeMap. map_set (flat_hashCode flatNode) (toTreeNode flatNode) nodeMap) L acc).
           children (snd e) = [])" for acc
  proof (induction L arbitrary: acc)
    case Nil
    then show ?case by simp
  next
    case (Cons x xs)
    have sub: "set (map_set k v m) \<subseteq> insert (k, v) (set m)" for k v m
      by (induction m) (auto split: if_splits)
    have "distinct (map fst (map_set (flat_hashCode x) (toTreeNode x) acc))"
      using Cons.prems by (simp add: distinct_map_set)
    moreover have "\<forall>e \<in> set (map_set (flat_hashCode x) (toTreeNode x) acc). children (snd e) = []"
      using Cons.prems sub [of "flat_hashCode x" "toTreeNode x" acc]
      by (auto simp: toTreeNode_def)
    ultimately show ?case using Cons.IH by simp
  qed
  from this [of "[]"] show ?thesis by (simp add: firstPass_def)
qed

lemma build_general:
  assumes b: "buildTreeFromFlatData L = (rs, m)"
  shows "well_linked m \<and> rs = roots_of m"
proof -
  let ?m0 = "firstPass L"
  let ?ks = "map fst ?m0"
  have d0: "distinct ?ks" and c0: "\<forall>e \<in> set ?m0. children (snd e) = []"
    using firstPass_general [of L] by simp_all
  from b have m: "m = map (\<lambda>(k, obj). (k, obj\<lparr>children := children obj @ filter (\<lambda>c. par ?m0 c = Some k) ?ks\<rparr>)) ?m0"
    and rs: "rs = filter (\<lambda>c. map_of ?m0 c \<noteq> None \<and> par ?m0 c = None) ?ks"
    unfolding build_eq secondPass_spec link_spec_def by simp_all
  have keys: "map fst m = ?ks" unfolding m by (induction ?m0) auto
  have pareq: "par m = par ?m0"
    unfolding m by (rule ext) (simp add: par_def map_of_map_entries split: option.splits)
  have "\<forall>e \<in> set m. children (snd e) = kids m (fst e)"
    unfolding kids_def keys pareq using c0 by (subst m) auto
  then have "well_linked m" using d0 by (simp add: well_linked_def keys)
  moreover have "filter (\<lambda>c. map_of ?m0 c \<noteq> None \<and> par ?m0 c = None) ?ks = filter (\<lambda>c. par ?m0 c = None) ?ks"
    by (rule filter_cong [OF refl]) (auto simp: map_of_eq_None_iff image_iff)
  then have "rs = roots_of m" by (simp add: rs roots_of_def keys pareq)
  ultimately show ?thesis by simp
qed

lemma depth_chain:
  "depth_is m d k \<Longrightarrow>
   \<exists>ks. length ks = Suc d \<and> set ks \<subseteq> set (map fst m) \<and> distinct ks \<and>
        (\<forall>x \<in> set ks. \<exists>j\<le>d. depth_is m j x)"
proof (induction d arbitrary: k)
  case 0
  then have "k \<in> set (map fst m)" by (rule depth_is_key)
  with 0 show ?case by (intro exI [of _ "[k]"]) auto
next
  case (Suc d)
  then obtain p where p: "depth_is m d p" unfolding depth_is_Suc_iff by blast
  from Suc.IH [OF p] obtain ks where ks: "length ks = Suc d" "set ks \<subseteq> set (map fst m)" "distinct ks"
      "\<forall>x \<in> set ks. \<exists>j\<le>d. depth_is m j x"
    by blast
  have "k \<notin> set ks"
  proof
    assume "k \<in> set ks"
    with ks(4) obtain j where "j \<le> d" "depth_is m j k" by blast
    with Suc.prems depth_is_unique [of m j k "Suc d"] show False by simp
  qed
  moreover have "k \<in> set (map fst m)" using Suc.prems by (rule depth_is_key)
  moreover have "\<forall>x \<in> set (k # ks). \<exists>j\<le>Suc d. depth_is m j x"
    using ks(4) Suc.prems by (auto intro: le_SucI)
  ultimately show ?case using ks by (intro exI [of _ "k # ks"]) auto
qed

lemma depth_bound: "depth_is m d k \<Longrightarrow> d < length m"
proof -
  assume "depth_is m d k"
  from depth_chain [OF this] obtain ks where ks: "length ks = Suc d" "set ks \<subseteq> set (map fst m)" "distinct ks"
    by blast
  have "length ks = card (set ks)" using ks(3) by (simp add: distinct_card)
  also have "\<dots> \<le> card (set (map fst m))" using ks(2) by (simp add: card_mono)
  also have "\<dots> \<le> length m" by (metis card_length length_map)
  finally show ?thesis using ks(1) by simp
qed

lemma forest_total: "\<exists>F. forest_of (buildTreeFromFlatData L) = Some F"
proof -
  obtain rs m where b: "buildTreeFromFlatData L = (rs, m)" by (cases "buildTreeFromFlatData L")
  from build_general [OF b] have wl: "well_linked m" and rs: "rs = roots_of m" by simp_all
  have "\<forall>r\<in>set rs. \<exists>t. reify (Suc (length m)) m r = Some t"
  proof
    fix r assume "r \<in> set rs"
    then have "depth_is m 0 r" unfolding rs roots_of_def depth_is_0_iff by simp
    then show "\<exists>t. reify (Suc (length m)) m r = Some t"
      using reify_succeeds [where n = "length m" and d = 0 and k = r and f = "Suc (length m)", OF wl depth_bound]
      by simp
  qed
  then show ?thesis
    using those_map_total [of rs "reify (Suc (length m)) m"] by (simp add: b forest_of_def)
qed

lemmas ex_defs = flatNode_def spanNode_def toTreeNode_def toFlat_def utf16_def
  buildTreeFromFlatData_def firstPass_def secondPass_def link_step_def push_child_def map_get_def
  forest_of_def flatten_def unique_hashes_def parents_resolve_def acyclic_parents_def is_orphan_def

lemma forest_roots:
  assumes u: "unique_hashes L" and F: "forest_of (buildTreeFromFlatData L) = Some F"
  shows "map (\<lambda>t. toFlat (root t)) F = filter (\<lambda>n. flat_parentHashCode n = None) L"
proof -
  obtain rs m where b: "buildTreeFromFlatData L = (rs, m)" by (cases "buildTreeFromFlatData L")
  note keys = store_keys [OF u b] and look = store_lookup [OF u b] and par = store_par [OF u b]
    and rs = store_roots [OF u b]
  let ?look = "\<lambda>r. the (map_of m r)"
  define fuel where "fuel = Suc (length m)"
  from F have "list_all2 (\<lambda>r t. reify fuel m r = Some t) rs F"
    by (simp add: b forest_of_def those_map_Some fuel_def)
  then have "map root F = map ?look rs"
    by (induction rule: list_all2_induct) (auto dest: reify_root)
  then have "map (\<lambda>t. toFlat (root t)) F = map (\<lambda>r. toFlat (?look r)) rs"
    by (metis (no_types, lifting) map_map comp_def map_eq_conv)
  also have "\<dots> = map (\<lambda>n. toFlat (?look (flat_hashCode n)))
        (filter (\<lambda>n. par m (flat_hashCode n) = None) L)"
    by (simp add: rs roots_of_def keys filter_map comp_def)
  also have "filter (\<lambda>n. par m (flat_hashCode n) = None) L = filter (\<lambda>n. flat_parentHashCode n = None) L"
    by (rule filter_cong [OF refl]) (simp add: par find_hash_unique [OF u])
  also have "map (\<lambda>n. toFlat (?look (flat_hashCode n))) (filter (\<lambda>n. flat_parentHashCode n = None) L)
      = filter (\<lambda>n. flat_parentHashCode n = None) L"
    by (rule map_idI) (simp add: look find_hash_unique [OF u])
  finally show ?thesis .
qed

text \<open>
  C3 (amended). For a list with unique identity hashes in which every parent hash
  resolves, the object graph reads as a forest whose roots are the nodes of the list
  without parent, in the order of the list; and when, in addition, following parent
  references from any node ends at a node without parent, the forest has exactly as
  many nodes as the list.
\<close>

theorem tree_builder_consistent:
  assumes "unique_hashes L" and "parents_resolve L"
  shows "\<exists>F. forest_of (buildTreeFromFlatData L) = Some F \<and>
           map (\<lambda>t. toFlat (root t)) F = filter (\<lambda>n. flat_parentHashCode n = None) L \<and>
           (acyclic_parents L \<longrightarrow> length (flatten F) = length L)"
proof -
  from forest_total [of L] obtain F where F: "forest_of (buildTreeFromFlatData L) = Some F"
    by blast
  have "length (flatten F) = length L" if a: "acyclic_parents L"
  proof -
    from forest_main [OF assms(1) a] F have "mset (map toFlat (flatten F)) = mset L"
      by auto
    then show ?thesis by (metis length_map size_mset)
  qed
  with F forest_roots [OF assms(1) F] show ?thesis by blast
qed

theorem tree_builder_consistent_witness:
  "unique_hashes [flatNode ''node_2'' 20 (Some 10), flatNode ''node_1'' 10 None,
                  flatNode ''node_3'' 30 (Some 20)] \<and>
   parents_resolve [flatNode ''node_2'' 20 (Some 10), flatNode ''node_1'' 10 None,
                  flatNode ''node_3'' 30 (Some 20)] \<and>
   acyclic_parents [flatNode ''node_2'' 20 (Some 10), flatNode ''node_1'' 10 None,
                  flatNode ''node_3'' 30 (Some 20)] \<and>
   (\<exists>F. forest_of (buildTreeFromFlatData [flatNode ''node_2'' 20 (Some 10), flatNode ''node_1'' 10 None,
                  flatNode ''node_3'' 30 (Some 20)]) = Some F \<and>
        length (flatten F) = 3 \<and>
        map (\<lambda>t. toFlat (root t)) F = [flatNode ''node_1'' 10 None])"
  using tree_builder_consistent [of "[flatNode ''node_2'' 20 (Some 10), flatNode ''node_1'' 10 None,
                  flatNode ''node_3'' 30 (Some 20)]"]
  by (simp add: ex_defs)

text \<open>
  C3 as stated fails in its node count: two nodes that are each other's parent have
  unique hashes and resolving parents, but the forest built from them has no node.
\<close>

theorem tree_builder_cycle_counterexample:
  "unique_hashes [flatNode ''node_1'' 1 (Some 2), flatNode ''node_2'' 2 (Some 1)] \<and>
   parents_resolve [flatNode ''node_1'' 1 (Some 2), flatNode ''node_2'' 2 (Some 1)] \<and>
   map_option (\<lambda>F. length (flatten F))
     (forest_of (buildTreeFromFlatData [flatNode ''node_1'' 1 (Some 2), flatNode ''node_2'' 2 (Some 1)]))
     = Some 0 \<and>
   length [flatNode ''node_1'' 1 (Some 2), flatNode ''node_2'' 2 (Some 1)] = 2"
  by (simp add: ex_defs)

text \<open>
  C6 (amended). For a list with unique identity hashes, resolving parents and no cycle
  of parent references, flattening the built forest in pre-order gives exactly the
  nodes of the list, each once.
\<close>

theorem round_trip:
  assumes "unique_hashes L" and "parents_resolve L" and "acyclic_parents L"
  shows "\<exists>F. forest_of (buildTreeFromFlatData L) = Some F \<and>
           set (map toFlat (flatten F)) = set L \<and>
           mset (map toFlat (flatten F)) = mset L"
proof -
  from forest_main [OF assms(1) assms(3)] obtain F where
    F: "forest_of (buildTreeFromFlatData L) = Some F" "mset (map toFlat (flatten F)) = mset L"
    by blast
  from F(2) have "set (map toFlat (flatten F)) = set L"
    by (rule mset_eq_setD)
  with F show ?thesis by blast
qed

theorem round_trip_witness:
  "unique_hashes [flatNode ''node_3'' 7 (Some 5), flatNode ''node_2'' 5 (Some 3),
                  flatNode ''node_1'' 3 None, flatNode ''node_4'' 8 (Some 3)] \<and>
   parents_resolve [flatNode ''node_3'' 7 (Some 5), flatNode ''node_2'' 5 (Some 3),
                  flatNode ''node_1'' 3 None, flatNode ''node_4'' 8 (Some 3)] \<and>
   acyclic_parents [flatNode ''node_3'' 7 (Some 5), flatNode ''node_2'' 5 (Some 3),
                  flatNode ''node_1'' 3 None, flatNode ''node_4'' 8 (Some 3)] \<and>
   map_option (\<lambda>F. map toFlat (flatten F))
     (forest_of (buildTreeFromFlatData [flatNode ''node_3'' 7 (Some 5), flatNode ''node_2'' 5 (Some 3),
                  flatNode ''node_1'' 3 None, flatNode ''node_4'' 8 (Some 3)]))
     = Some [flatNode ''node_1'' 3 None, flatNode ''node_2'' 5 (Some 3),
             flatNode ''node_3'' 7 (Some 5), flatNode ''node_4'' 8 (Some 3)]"
  using round_trip [of "[flatNode ''node_3'' 7 (Some 5), flatNode ''node_2'' 5 (Some 3),
                  flatNode ''node_1'' 3 None, flatNode ''node_4'' 8 (Some 3)]"]
  by (simp add: ex_defs)

text \<open>
  C6 as stated fails: of a root and two nodes that are each other's parent, only the
  root comes back.
\<close>

theorem round_trip_cycle_counterexample:
  "unique_hashes [flatNode ''node_1'' 1 None, flatNode ''node_2'' 2 (Some 3),
                  flatNode ''node_3'' 3 (Some 2)] \<and>
   parents_resolve [flatNode ''node_1'' 1 None, flatNode ''node_2'' 2 (Some 3),
                  flatNode ''node_3'' 3 (Some 2)] \<and>
   map_option (\<lambda>F. map toFlat (flatten F))
     (forest_of (buildTreeFromFlatData [flatNode ''node_1'' 1 None, flatNode ''node_2'' 2 (Some 3),
                  flatNode ''node_3'' 3 (Some 2)]))
     = Some [flatNode ''node_1'' 1 None] \<and>
   flatNode ''node_2'' 2 (Some 3) \<notin> set [flatNode ''node_1'' 1 None]"
  by (simp add: ex_defs)

lemma kids_distinct: "distinct (map fst m) \<Longrightarrow> distinct (kids m k)"
  by (simp add: kids_def)

text \<open>
  C4. For a list of serialized nodes (their identity hashes are unique, as the data
  model has it) that contains an orphan, the builder returns a result that reads as a
  forest; the orphan is in no child list and not among the roots; every
  reference denotes the node it was made from; every node without parent is a root;
  and every other node that is not an orphan is in the child list of the object of its
  parent, once, and in no other child list.
\<close>

theorem orphan_handling:
  assumes u: "unique_hashes L" and n: "n \<in> set L" and o: "is_orphan L n"
  shows "\<exists>rs m. buildTreeFromFlatData L = (rs, m) \<and>
           forest_of (rs, m) \<noteq> None \<and>
           flat_hashCode n \<notin> set rs \<and>
           (\<forall>e \<in> set m. flat_hashCode n \<notin> set (children (snd e))) \<and>
           (\<forall>x \<in> set L. map_option toFlat (map_get m (flat_hashCode x)) = Some x) \<and>
           (\<forall>x \<in> set L. case flat_parentHashCode x of
                None \<Rightarrow> flat_hashCode x \<in> set rs
              | Some p \<Rightarrow>
                  is_orphan L x \<or>
                  (\<exists>parent. map_get m p = Some parent \<and> hashCode parent = p \<and>
                     flat_hashCode x \<in> set (children parent) \<and> distinct (children parent) \<and>
                     (\<forall>e \<in> set m. fst e \<noteq> p \<longrightarrow> flat_hashCode x \<notin> set (children (snd e)))))"
proof -
  obtain rs m where b: "buildTreeFromFlatData L = (rs, m)" by (cases "buildTreeFromFlatData L")
  note keys = store_keys [OF u b] and look = store_lookup [OF u b] and par = store_par [OF u b]
    and wl = store_linked [OF u b] and rs = store_roots [OF u b]
  have dist: "distinct (map fst m)" using wl by (simp add: well_linked_def)
  have ch: "\<And>e. e \<in> set m \<Longrightarrow> children (snd e) = kids m (fst e)"
    using wl by (simp add: well_linked_def)
  have parx: "\<And>x. x \<in> set L \<Longrightarrow> par m (flat_hashCode x) = flat_parentHashCode x"
    by (simp add: par find_hash_unique [OF u])
  from o obtain q where q: "flat_parentHashCode n = Some q" "q \<notin> set (map flat_hashCode L)"
    by (auto simp: is_orphan_def split: option.splits)
  have 1: "flat_hashCode n \<notin> set rs"
    using parx [OF n] q by (simp add: rs roots_of_def)
  have 2: "\<forall>e \<in> set m. flat_hashCode n \<notin> set (children (snd e))"
  proof
    fix e assume e: "e \<in> set m"
    then have "fst e \<in> set (map flat_hashCode L)" unfolding keys [symmetric] by simp
    with q have "fst e \<noteq> q" by auto
    then show "flat_hashCode n \<notin> set (children (snd e))"
      using parx [OF n] q by (simp add: ch [OF e] kids_def)
  qed
  have 3: "\<forall>x \<in> set L. map_option toFlat (map_get m (flat_hashCode x)) = Some x"
    by (simp add: map_get_def look find_hash_unique [OF u])
  have 4: "\<forall>x \<in> set L. case flat_parentHashCode x of
                None \<Rightarrow> flat_hashCode x \<in> set rs
              | Some p \<Rightarrow>
                  is_orphan L x \<or>
                  (\<exists>parent. map_get m p = Some parent \<and> hashCode parent = p \<and>
                     flat_hashCode x \<in> set (children parent) \<and> distinct (children parent) \<and>
                     (\<forall>e \<in> set m. fst e \<noteq> p \<longrightarrow> flat_hashCode x \<notin> set (children (snd e))))"
  proof
    fix x assume x: "x \<in> set L"
    then have xk: "flat_hashCode x \<in> set (map fst m)" unfolding keys by simp
    show "case flat_parentHashCode x of
                None \<Rightarrow> flat_hashCode x \<in> set rs
              | Some p \<Rightarrow>
                  is_orphan L x \<or>
                  (\<exists>parent. map_get m p = Some parent \<and> hashCode parent = p \<and>
                     flat_hashCode x \<in> set (children parent) \<and> distinct (children parent) \<and>
                     (\<forall>e \<in> set m. fst e \<noteq> p \<longrightarrow> flat_hashCode x \<notin> set (children (snd e))))"
    proof (cases "flat_parentHashCode x")
      case None
      then show ?thesis using parx [OF x] xk by (simp add: rs roots_of_def)
    next
      case (Some p)
      show ?thesis
      proof (cases "is_orphan L x")
        case True
        then show ?thesis by (simp add: Some)
      next
        case False
        with Some have "p \<in> set (map flat_hashCode L)" by (simp add: is_orphan_def)
        then obtain pn where pn: "pn \<in> set L" "flat_hashCode pn = p" by auto
        define parent where "parent = (toTreeNode pn)\<lparr>children := kids m p\<rparr>"
        have lp: "map_of m p = Some parent"
          using look [of p] find_hash_unique [OF u pn(1)] pn(2) by (simp add: parent_def)
        have "hashCode parent = p" by (simp add: parent_def toTreeNode_def pn(2))
        moreover have "flat_hashCode x \<in> set (children parent)"
          using parx [OF x] Some xk by (simp add: parent_def kids_def)
        moreover have "distinct (children parent)"
          using kids_distinct [OF dist] by (simp add: parent_def)
        moreover have "\<forall>e \<in> set m. fst e \<noteq> p \<longrightarrow> flat_hashCode x \<notin> set (children (snd e))"
          using parx [OF x] Some by (auto simp: ch kids_def)
        ultimately show ?thesis using lp Some by (simp add: map_get_def)
      qed
    qed
  qed
  have 0: "forest_of (rs, m) \<noteq> None"
    using forest_total [of L] by (simp add: b)
  from b 0 1 2 3 4 show ?thesis by blast
qed

theorem orphan_handling_witness:
  "unique_hashes [flatNode ''node_1'' 1 None, flatNode ''node_2'' 2 (Some 99),
                  flatNode ''node_3'' 3 (Some 1), flatNode ''node_4'' 4 (Some 2)] \<and>
   is_orphan [flatNode ''node_1'' 1 None, flatNode ''node_2'' 2 (Some 99),
                  flatNode ''node_3'' 3 (Some 1), flatNode ''node_4'' 4 (Some 2)]
     (flatNode ''node_2'' 2 (Some 99)) \<and>
   map (\<lambda>e. (fst e, children (snd e)))
     (snd (buildTreeFromFlatData [flatNode ''node_1'' 1 None, flatNode ''node_2'' 2 (Some 99),
                  flatNode ''node_3'' 3 (Some 1), flatNode ''node_4'' 4 (Some 2)]))
     = [(1, [3]), (2, [4]), (3, []), (4, [])] \<and>
   fst (buildTreeFromFlatData [flatNode ''node_1'' 1 None, flatNode ''node_2'' 2 (Some 99),
                  flatNode ''node_3'' 3 (Some 1), flatNode ''node_4'' 4 (Some 2)]) = [1]"
  using orphan_handling [of "[flatNode ''node_1'' 1 None, flatNode ''node_2'' 2 (Some 99),
                  flatNode ''node_3'' 3 (Some 1), flatNode ''node_4'' 4 (Some 2)]"
                  "flatNode ''node_2'' 2 (Some 99)"]
  by (simp add: ex_defs)

section \<open>Properties of the session runner\<close>

lemmas run_defs = started_def on_stdout_def on_stderr_def on_error_def on_exit_def invoke_def
  invoke_executor_def dispose_def resolveCurrentCommand_def rejectCurrentCommand_def
  fullCommand_def str_includes_def SENTINEL_def utf16_def trim_def is_ws_def

lemma SENTINEL_nonempty: "SENTINEL \<noteq> []"
  by (simp add: SENTINEL_def utf16_def)

lemma split_found:
  "sep \<noteq> [] \<Longrightarrow> indexOf sep s = Some i \<Longrightarrow>
   split s sep = take i s # split (drop (i + length sep) s) sep"
  by (subst split.simps) simp

lemma split_first:
  "sep \<noteq> [] \<Longrightarrow> split s sep \<noteq> [] \<and>
     split s sep ! 0 = (case indexOf sep s of None \<Rightarrow> s | Some j \<Rightarrow> take j s)"
  by (subst (1 2) split.simps) (simp split: option.splits)

lemma split_parts:
  assumes "indexOf SENTINEL chunk = Some i"
  shows "split chunk SENTINEL ! 0 = take i chunk"
    and "Suc 0 < length (split chunk SENTINEL)"
    and "split chunk SENTINEL ! Suc 0 = next_part chunk i"
    and "split chunk SENTINEL ! 1 = next_part chunk i"
  using assms split_first [OF SENTINEL_nonempty, of "drop (i + length SENTINEL) chunk"]
  by (simp_all add: split_found [OF SENTINEL_nonempty assms] next_part_def Let_def)

lemma on_stdout_found:
  assumes "indexOf SENTINEL chunk = Some i"
  shows "on_stdout r chunk =
     (case resolveCurrentCommand (r\<lparr>currentData := currentData r @ take i chunk\<rparr>) of
        (r', effs) \<Rightarrow>
          if trim (next_part chunk i) \<noteq> [] then (r'\<lparr>currentData := next_part chunk i\<rparr>, effs)
          else (r', effs))"
  using assms
  by (simp add: on_stdout_def str_includes_def split_parts [OF assms] Let_def
      cong del: if_weak_cong)

text \<open>
  C1. The listener looks for the sentinel in the chunk, not in the buffer: a sentinel
  that arrives in two chunks is appended to the buffer and the pending request is
  never settled. And after a sentinel followed by a blank remainder the buffer is not
  that remainder but still the body of the response just delivered.
\<close>

theorem split_sentinel_never_settles:
  "run (started\<lparr>pendingCallbacks := [1]\<rparr>)
       [StdoutData (utf16 ''ok__END_OF_''), StdoutData (utf16 ''COMMAND__\<newline>'')]
     = (started\<lparr>pendingCallbacks := [1], currentData := utf16 ''ok__END_OF_COMMAND__\<newline>''\<rparr>, []) \<and>
   on_stdout (started\<lparr>pendingCallbacks := [1]\<rparr>) (utf16 ''ok__END_OF_COMMAND__\<newline>'')
     = (started\<lparr>currentData := utf16 ''ok''\<rparr>, [Resolved 1 (utf16 ''ok'')])"
  by (simp add: run_defs split.simps)

text \<open>
  C2. Two calls issued before any output, then the two responses, each in a chunk of
  its own: the second future resolves with the output of both commands.
\<close>

theorem fifo_second_response_includes_first:
  "snd (run started
     [Invoke SpawnOk WriteOk 1 (utf16 ''echo hello''),
      Invoke SpawnOk WriteOk 2 (utf16 ''echo world''),
      StdoutData (utf16 ''hello\<newline>__END_OF_COMMAND__\<newline>''),
      StdoutData (utf16 ''world\<newline>__END_OF_COMMAND__\<newline>'')])
   = [Wrote (utf16 ''echo hello; Write-Output \"__END_OF_COMMAND__\"\<newline>''),
      Wrote (utf16 ''echo world; Write-Output \"__END_OF_COMMAND__\"\<newline>''),
      Resolved 1 (utf16 ''hello''),
      Resolved 2 (utf16 ''hello\<newline>world'')]"
  by (simp add: run_defs split.simps)

lemma trim_Nil [simp]: "trim [] = []"
  by (simp add: trim_def)

lemma resolveCurrentCommand_pending:
  "pendingCallbacks r = h # q \<Longrightarrow>
   resolveCurrentCommand r =
     (r\<lparr>pendingCallbacks := q\<rparr>,
      [if trim (currentError r) \<noteq> [] \<and> trim (currentData r) = []
       then Rejected h (StderrError (currentError r))
       else Resolved h (trim (currentData r))])"
  by (auto simp: resolveCurrentCommand_def Let_def)

text \<open>
  C7. When a response is framed, the oldest pending request is rejected with the
  error text if the error buffer is not blank and the output buffer is blank; in
  every other case it is resolved with the trimmed output.
\<close>

theorem stderr_heuristic:
  assumes "pendingCallbacks r = h # q" and "indexOf SENTINEL chunk = Some i"
  shows "snd (on_stdout r chunk) =
           [if trim (currentError r) \<noteq> [] \<and> trim (currentData r @ take i chunk) = []
            then Rejected h (StderrError (currentError r))
            else Resolved h (trim (currentData r @ take i chunk))] \<and>
         pendingCallbacks (fst (on_stdout r chunk)) = q"
  unfolding on_stdout_found [OF assms(2)]
  using resolveCurrentCommand_pending [of "r\<lparr>currentData := currentData r @ take i chunk\<rparr>" h q] assms(1)
  by (simp split: prod.splits)

theorem stderr_heuristic_witness:
  "snd (on_stdout (started\<lparr>pendingCallbacks := [3, 4], currentError := utf16 ''boom''\<rparr>)
         (utf16 '' \<newline>__END_OF_COMMAND__\<newline>''))
     = [Rejected 3 (StderrError (utf16 ''boom''))] \<and>
   snd (on_stdout (started\<lparr>pendingCallbacks := [3, 4], currentError := utf16 ''warning''\<rparr>)
         (utf16 ''42\<newline>__END_OF_COMMAND__\<newline>''))
     = [Resolved 3 (utf16 ''42'')]"
  using stderr_heuristic [of "started\<lparr>pendingCallbacks := [3, 4], currentError := utf16 ''boom''\<rparr>"
      3 "[4]" "utf16 '' \<newline>__END_OF_COMMAND__\<newline>''" 2]
    stderr_heuristic [of "started\<lparr>pendingCallbacks := [3, 4], currentError := utf16 ''warning''\<rparr>"
      3 "[4]" "utf16 ''42\<newline>__END_OF_COMMAND__\<newline>''" 3]
  by (simp add: run_defs split.simps)

text \<open>
  What the crash handling does do: an error event rejects the oldest pending request,
  if any, with the error; an exit does so with the exit code, and clears the process
  handle. Nothing but \<open>invoke\<close> spawns a process or restores a cleared handle. On
  a runner that is not disposed and whose handle is cleared, \<open>invoke\<close> spawns a
  process and enqueues the request, and with no older request pending the next framed
  response resolves it.
\<close>

lemma exit_rejects_and_invoke_respawns:
  "on_error r err =
     (case pendingCallbacks r of
        [] \<Rightarrow> (r, [])
      | h # q \<Rightarrow> (r\<lparr>pendingCallbacks := q\<rparr>, [Rejected h (ProcessError err)])) \<and>
   on_exit r code =
     (case pendingCallbacks r of
        [] \<Rightarrow> (r\<lparr>process := None\<rparr>, [])
      | h # q \<Rightarrow> (r\<lparr>process := None, pendingCallbacks := q\<rparr>, [Rejected h (ExitedUnexpectedly code)])) \<and>
   (\<forall>ev. (case ev of Invoke sp wr h' c' \<Rightarrow> False | _ \<Rightarrow> True) \<longrightarrow>
      Spawned \<notin> set (snd (step r ev)) \<and>
      (process r = None \<longrightarrow> process (fst (step r ev)) = None)) \<and>
   (\<not> isDisposed r \<and> process r = None \<longrightarrow>
      invoke r SpawnOk WriteOk h c =
        (r\<lparr>process := Some Live, pendingCallbacks := pendingCallbacks r @ [h],
           currentData := [], currentError := []\<rparr>,
         [Spawned, Wrote (fullCommand c @ utf16 ''\<newline>'')])) \<and>
   (\<not> isDisposed r \<and> process r = None \<and> pendingCallbacks r = [] \<and>
    indexOf SENTINEL chunk = Some i \<longrightarrow>
      snd (run r [Invoke SpawnOk WriteOk h c, StdoutData chunk]) =
        [Spawned, Wrote (fullCommand c @ utf16 ''\<newline>''), Resolved h (trim (take i chunk))])"
proof (intro conjI allI impI)
  show "on_error r err =
     (case pendingCallbacks r of
        [] \<Rightarrow> (r, [])
      | h # q \<Rightarrow> (r\<lparr>pendingCallbacks := q\<rparr>, [Rejected h (ProcessError err)]))"
    by (simp add: on_error_def rejectCurrentCommand_def)
  show "on_exit r code =
     (case pendingCallbacks r of
        [] \<Rightarrow> (r\<lparr>process := None\<rparr>, [])
      | h # q \<Rightarrow> (r\<lparr>process := None, pendingCallbacks := q\<rparr>, [Rejected h (ExitedUnexpectedly code)]))"
    by (simp add: on_exit_def rejectCurrentCommand_def split: list.splits)
next
  fix ev assume ev: "case ev of Invoke sp wr h' c' \<Rightarrow> False | _ \<Rightarrow> True"
  have res: "Spawned \<notin> set (snd (resolveCurrentCommand r'))"
      "process (fst (resolveCurrentCommand r')) = process r'" for r'
    by (auto simp: resolveCurrentCommand_def Let_def split: list.splits)
  have out: "Spawned \<notin> set (snd (on_stdout r chunk'))"
      "process (fst (on_stdout r chunk')) = process r" for chunk'
    using res [of "r\<lparr>currentData := currentData r @ split chunk' SENTINEL ! 0\<rparr>"]
    by (auto simp: on_stdout_def Let_def split: prod.splits)
  show "Spawned \<notin> set (snd (step r ev))"
    using ev out(1)
    by (cases ev) (auto simp: on_stderr_def on_error_def on_exit_def dispose_def
        rejectCurrentCommand_def split: list.splits)
  show "process (fst (step r ev)) = None" if "process r = None"
    using ev out(2) that
    by (cases ev) (auto simp: on_stderr_def on_error_def on_exit_def dispose_def
        rejectCurrentCommand_def split: list.splits)
next
  assume "\<not> isDisposed r \<and> process r = None"
  then show "invoke r SpawnOk WriteOk h c =
        (r\<lparr>process := Some Live, pendingCallbacks := pendingCallbacks r @ [h],
           currentData := [], currentError := []\<rparr>,
         [Spawned, Wrote (fullCommand c @ utf16 ''\<newline>'')])"
    by (simp add: invoke_def invoke_executor_def)
next
  assume a: "\<not> isDisposed r \<and> process r = None \<and> pendingCallbacks r = [] \<and>
    indexOf SENTINEL chunk = Some i"
  then have i: "indexOf SENTINEL chunk = Some i" by simp
  from a show "snd (run r [Invoke SpawnOk WriteOk h c, StdoutData chunk]) =
        [Spawned, Wrote (fullCommand c @ utf16 ''\<newline>''), Resolved h (trim (take i chunk))]"
    by (simp add: invoke_def invoke_executor_def on_stdout_found [OF i]
        resolveCurrentCommand_def split: prod.splits)
qed

text \<open>
  C8. A spawn that yields a handle without pid leaves that handle in \<open>this.process\<close>:
  the call that respawned is rejected, and the next call, finding a handle, does not
  respawn; its command goes to the dead handle. And of two requests pending at an
  exit only the older is rejected: the other takes the response to the next command,
  whose own request stays pending.
\<close>

theorem failed_respawn_is_not_retried:
  "run started
     [Invoke SpawnOk WriteOk 1 (utf16 ''a''), ProcExit (Some 1),
      Invoke SpawnNoPid WriteOk 2 (utf16 ''b''),
      Invoke SpawnOk WriteOk 3 (utf16 ''c'')]
   = (started\<lparr>process := Some NoPid, pendingCallbacks := [3]\<rparr>,
      [Wrote (utf16 ''a; Write-Output \"__END_OF_COMMAND__\"\<newline>''),
       Rejected 1 (ExitedUnexpectedly (Some 1)),
       Spawned, Rejected 2 FailedToStart,
       Wrote (utf16 ''c; Write-Output \"__END_OF_COMMAND__\"\<newline>'')]) \<and>
   run started
     [Invoke SpawnOk WriteOk 1 (utf16 ''a''), Invoke SpawnOk WriteOk 2 (utf16 ''b''),
      ProcExit (Some 1),
      Invoke SpawnOk WriteOk 3 (utf16 ''c''),
      StdoutData (utf16 ''out of c\<newline>__END_OF_COMMAND__\<newline>'')]
   = (started\<lparr>pendingCallbacks := [3], currentData := utf16 ''out of c\<newline>''\<rparr>,
      [Wrote (utf16 ''a; Write-Output \"__END_OF_COMMAND__\"\<newline>''),
       Wrote (utf16 ''b; Write-Output \"__END_OF_COMMAND__\"\<newline>''),
       Rejected 1 (ExitedUnexpectedly (Some 1)),
       Spawned,
       Wrote (utf16 ''c; Write-Output \"__END_OF_COMMAND__\"\<newline>''),
       Resolved 2 (utf16 ''out of c'')])"
  by (simp add: run_defs split.simps)

section \<open>Properties of the analysis pipeline\<close>

lemma analyzeContent_rejected:
  "analyzeContent JSON_parse (Inl e) = ([utf16 ''Failed to analyze PowerShell AST: '' @ e], Inr ([], []))"
  by (simp add: analyzeContent_def analyzeContent_try_def)

lemma executePowerShell_close_failed:
  "executePowerShell_close (Some 1) stdout stderr =
     Inl (utf16 ''Error: PowerShell execution failed (exit code 1). STDERR: '' @ stderr
          @ utf16 ''. STDOUT: '' @ stdout)"
  by (simp add: executePowerShell_close_def show_code_def show_nat.simps utf16_def)

text \<open>
  C9 (amended). When the script signals total parse failure (its \<open>catch\<close> block
  writes the error object and exits with code 1), \<open>analyzeContent\<close> shows one error
  message, which quotes the whole output of the script, that is the serialised error
  object with its message field, and resolves with the empty node list. If the error
  object is received with exit code 0, the message shown contains the message field
  itself. In no case does \<open>analyzeContent\<close> reject.
\<close>

theorem total_parse_failure_reported:
  "analyzeContent JSON_parse
       (executePowerShell_close (snd (catch_block ConvertTo_Json newline message))
          (fst (catch_block ConvertTo_Json newline message)) stderr)
     = ([utf16 ''Failed to analyze PowerShell AST: Error: PowerShell execution failed (exit code 1). STDERR: ''
           @ stderr @ utf16 ''. STDOUT: ''
           @ ConvertTo_Json \<lparr>err_error = True, err_message = message, err_type = utf16 ''ParseError''\<rparr>
           @ newline],
        Inr ([], [])) \<and>
   (\<forall>pre post.
      ConvertTo_Json \<lparr>err_error = True, err_message = message, err_type = utf16 ''ParseError''\<rparr>
        = pre @ message @ post \<longrightarrow>
      (\<exists>a b. fst (analyzeContent JSON_parse
                 (executePowerShell_close (snd (catch_block ConvertTo_Json newline message))
                    (fst (catch_block ConvertTo_Json newline message)) stderr))
             = [a @ message @ b])) \<and>
   (trim result \<noteq> [] \<and> JSON_parse result = Inr (ErrorDoc message ty) \<longrightarrow>
      analyzeContent JSON_parse (Inr result) =
        ([utf16 ''Failed to analyze PowerShell AST: Error: JSON parsing failed: Error: PowerShell parsing error: ''
            @ message @ utf16 ''. Raw output: '' @ take 200 result @ utf16 ''...''],
         Inr ([], []))) \<and>
   (\<exists>shown val. analyzeContent JSON_parse executed = (shown, Inr val))"
proof (intro conjI allI impI)
  let ?obj = "\<lparr>err_error = True, err_message = message, err_type = utf16 ''ParseError''\<rparr>"
  let ?head = "utf16 ''Failed to analyze PowerShell AST: Error: PowerShell execution failed (exit code 1). STDERR: ''
           @ stderr @ utf16 ''. STDOUT: ''"
  have shown: "analyzeContent JSON_parse
       (executePowerShell_close (snd (catch_block ConvertTo_Json newline message))
          (fst (catch_block ConvertTo_Json newline message)) stderr)
     = ([?head @ ConvertTo_Json ?obj @ newline], Inr ([], []))"
    by (simp add: catch_block_def executePowerShell_close_failed analyzeContent_rejected utf16_def)
  then show "analyzeContent JSON_parse
       (executePowerShell_close (snd (catch_block ConvertTo_Json newline message))
          (fst (catch_block ConvertTo_Json newline message)) stderr)
     = ([utf16 ''Failed to analyze PowerShell AST: Error: PowerShell execution failed (exit code 1). STDERR: ''
           @ stderr @ utf16 ''. STDOUT: '' @ ConvertTo_Json ?obj @ newline],
        Inr ([], []))"
    by simp
  fix pre post assume "ConvertTo_Json ?obj = pre @ message @ post"
  then have "?head @ ConvertTo_Json ?obj @ newline = (?head @ pre) @ message @ (post @ newline)"
    by simp
  then show "\<exists>a b. fst (analyzeContent JSON_parse
                 (executePowerShell_close (snd (catch_block ConvertTo_Json newline message))
                    (fst (catch_block ConvertTo_Json newline message)) stderr))
             = [a @ message @ b]"
    unfolding shown by (metis fst_conv)
next
  assume "trim result \<noteq> [] \<and> JSON_parse result = Inr (ErrorDoc message ty)"
  then show "analyzeContent JSON_parse (Inr result) =
        ([utf16 ''Failed to analyze PowerShell AST: Error: JSON parsing failed: Error: PowerShell parsing error: ''
            @ message @ utf16 ''. Raw output: '' @ take 200 result @ utf16 ''...''],
         Inr ([], []))"
    by (simp add: analyzeContent_def analyzeContent_try_def utf16_def)
next
  show "\<exists>shown val. analyzeContent JSON_parse executed = (shown, Inr val)"
    by (auto simp: analyzeContent_def split: sum.splits)
qed

theorem total_parse_failure_reported_witness:
  "analyzeContent (\<lambda>s. Inr OtherDoc)
       (executePowerShell_close
          (snd (catch_block (\<lambda>obj. utf16 ''{\"message\":\"'' @ err_message obj @ utf16 ''\"}'')
                  (utf16 ''\<newline>'') (utf16 ''AST is null'')))
          (fst (catch_block (\<lambda>obj. utf16 ''{\"message\":\"'' @ err_message obj @ utf16 ''\"}'')
                  (utf16 ''\<newline>'') (utf16 ''AST is null'')))
          [])
     = ([utf16 ''Failed to analyze PowerShell AST: Error: PowerShell execution failed (exit code 1). STDERR: . STDOUT: {\"message\":\"AST is null\"}\<newline>''],
        Inr ([], [])) \<and>
   analyzeContent (\<lambda>s. Inr (ErrorDoc (utf16 ''AST is null'') (utf16 ''ParseError'')))
       (Inr (utf16 ''{\"error\":true}''))
     = ([utf16 ''Failed to analyze PowerShell AST: Error: JSON parsing failed: Error: PowerShell parsing error: AST is null. Raw output: {\"error\":true}...''],
        Inr ([], []))"
  using total_parse_failure_reported [of "\<lambda>s. Inr OtherDoc"
      "\<lambda>obj. utf16 ''{\"message\":\"'' @ err_message obj @ utf16 ''\"}''" "utf16 ''\<newline>''"
      "utf16 ''AST is null''" "[]"]
    total_parse_failure_reported [of "\<lambda>s. Inr (ErrorDoc (utf16 ''AST is null'') (utf16 ''ParseError''))"
      "\<lambda>obj. utf16 ''{\"message\":\"'' @ err_message obj @ utf16 ''\"}''" "utf16 ''\<newline>''"
      "utf16 ''AST is null''" "[]" "utf16 ''{\"error\":true}''" "utf16 ''ParseError''"]
  by (simp add: analyzeContent_def analyzeContent_try_def utf16_def trim_def is_ws_def
      catch_block_def executePowerShell_close_def show_code_def show_nat.simps)

text \<open>
  C9 as stated fails: on the script's error object, with exit code 1 as with exit
  code 0, the promise resolves, with the empty list.
\<close>

theorem total_parse_failure_counterexample:
  "snd (analyzeContent (\<lambda>s. Inr (ErrorDoc (utf16 ''AST is null'') (utf16 ''ParseError'')))
         (executePowerShell_close (Some 1) (utf16 ''{\"error\":true,\"message\":\"AST is null\"}\<newline>'') []))
     = Inr ([], []) \<and>
   snd (analyzeContent (\<lambda>s. Inr (ErrorDoc (utf16 ''AST is null'') (utf16 ''ParseError'')))
         (Inr (utf16 ''{\"error\":true,\"message\":\"AST is null\"}'')))
     = Inr ([], [])"
  by (simp add: analyzeContent_def analyzeContent_try_def utf16_def trim_def is_ws_def
      executePowerShell_close_def show_code_def show_nat.simps)

end
